theory Spec2Isabelle
  imports
    Main
    "HOL-Library.AList"
    "HOL-Library.Char_ord"
    "HOL-Library.List_Lexorder"
    "HOL-Library.Option_ord"
begin

section \<open>Data model\<close>

text \<open>
  Modelled from the spec: the class \<open>Feature\<close> (module \<open>feature\<close>) is not part of the
  sources; the fields are those of the spec's data model.

  A feature is one row of the \<open>features\<close> table and one record of the input. Its primary
  key is \<open>fid\<close> (the source's \<open>id\<close>); \<open>fstart\<close> and \<open>fend\<close> are the source's \<open>start\<close>
  and \<open>end\<close>, an integer or Python's \<open>None\<close> for a \<open>.\<close> column. The \<open>bin\<close> column is a
  function of start and end computed by the \<open>bins\<close> module and is not carried.

  The attributes are a Python dictionary from a key to the list of its values. It is an
  association list here, read and written through \<open>map_of\<close>, \<open>AList.update\<close> and
  \<open>AList.delete\<close>: a key that is already present keeps its place, a new key goes last.
\<close>

type_synonym attrs = "(string \<times> string list) list"

record feature =
  fid :: string
  seqid :: string
  source :: string
  featuretype :: string
  fstart :: "int option"
  fend :: "int option"
  score :: string
  strand :: string
  frame :: string
  attributes :: attrs
  extra :: "string list"

text \<open>A row of \<open>relations\<close>: parent, child, level.\<close>

type_synonym relation = "string \<times> string \<times> nat"

definition parent :: "relation \<Rightarrow> string" where
  "parent r = fst r"

definition child :: "relation \<Rightarrow> string" where
  "child r = fst (snd r)"

definition level :: "relation \<Rightarrow> nat" where
  "level r = snd (snd r)"

text \<open>
  The store as the creator sees it: the two tables in row order, and the creator's
  in-memory counters \<open>_autoincrements\<close>, a \<open>defaultdict(int)\<close>, hence a total function
  that is 0 on a key never incremented.
\<close>

record db =
  features :: "feature list"
  relations :: "relation list"
  autoincrements :: "string \<Rightarrow> nat"

datatype merge_strategy = Error | Warning | Replace | Merge | CreateUnique | Other string

text \<open>
  The kinds of \<open>id_spec\<close>. A candidate of a sequence is a key or a callable; the value a
  dictionary spec gives for a feature type is one key or a sequence of candidates. A
  callable returns \<open>None\<close> or a string.
\<close>

datatype id_key = Key string | Func "feature \<Rightarrow> string option"

datatype id_val = Str string | Seq "id_key list"

datatype id_spec =
    Scalar string
  | Callable "feature \<Rightarrow> string option"
  | ByType "(string \<times> id_val) list"
  | Keys "id_key list"

text \<open>
  A Python value that an attribute of a feature can hold: a text, an integer or \<open>None\<close>
  (\<open>start\<close> and \<open>end\<close>), or an object of another type (a dictionary, a list, a method).
\<close>

datatype field_value = Text string | Number "int option" | Object

text \<open>
  The fields of the creator. The class \<open>Feature\<close> is not part of the sources, so what
  \<open>getattr(f, name)\<close> answers for a name that is none of the eight columns is the
  parameter \<open>other_attribute\<close>: the value, or \<open>None\<close> when the class has no such
  attribute.
\<close>

record config =
  merge_strategy :: merge_strategy
  id_spec :: id_spec
  verbose :: bool
  transcript_key :: string
  gene_key :: string
  subfeature :: string
  other_attribute :: "feature \<Rightarrow> string \<Rightarrow> field_value option"

text \<open>
  Every exception the modelled code can raise is a value. \<open>MergeAssertion\<close> is the
  \<open>AssertionError\<close> of \<open>_do_merge\<close>; it carries the three values the source formats into
  the message, in the source's order.
\<close>

datatype error =
    DuplicateID string
  | InvalidMergeStrategy string
  | MergeAssertion string nat feature
  | IntegrityError string
  | NoneHasNoAttributes
  | UnboundLocalError string
  | AttributeError string
  | NoneId
  | InterfaceError
  | TypeError string
  | IndexError
  | FeatureNotFoundError string

section \<open>Python helpers\<close>

text \<open>Decimal text of a number, as \<open>'%s' % n\<close> and \<open>str(n)\<close> give it.\<close>

definition digit :: "nat \<Rightarrow> char" where
  "digit d = ''0123456789'' ! d"

fun str_nat :: "nat \<Rightarrow> string" where
  "str_nat n = (if 10 \<le> n then str_nat (n div 10) @ [digit (n mod 10)] else [digit n])"

declare str_nat.simps [simp del]

definition str_int :: "int \<Rightarrow> string" where
  "str_int i = (if 0 \<le> i then str_nat (nat i) else CHR ''-'' # str_nat (nat (- i)))"

text \<open>\<open>d[k]\<close> on the attributes, a dictionary that answers a missing key with \<open>[]\<close>.\<close>

definition dict_get :: "attrs \<Rightarrow> string \<Rightarrow> string list" where
  "dict_get d k = (case map_of d k of None \<Rightarrow> [] | Some v \<Rightarrow> v)"

text \<open>
  \<open>list(s)\<close> for a Python set \<open>s\<close>. Python leaves the order of a set open; the model
  lists a set in ascending order. What is proved of a merged value list in general uses
  only that it holds each element of the set once.
\<close>

definition list_of_set :: "string set \<Rightarrow> string list" where
  "list_of_set s = sorted_list_of_set s"

section \<open>The ID synthesiser\<close>

definition increment_featuretype_autoid ::
  "string \<Rightarrow> (string \<Rightarrow> nat) \<Rightarrow> string \<times> (string \<Rightarrow> nat)" where
  "increment_featuretype_autoid key ctr =
     (let ctr' = ctr(key := ctr key + 1)
      in (key @ ''_'' @ str_nat (ctr' key), ctr'))"

text \<open>
  A column of a feature by its name, for \<open>getattr(f, name)\<close> and for the comparison of
  two features field by field. \<open>None\<close> stands for a name that is no column.
\<close>

definition field_value :: "feature \<Rightarrow> string \<Rightarrow> field_value option" where
  "field_value f name =
     (if name = ''seqid'' then Some (Text (seqid f))
      else if name = ''source'' then Some (Text (source f))
      else if name = ''featuretype'' then Some (Text (featuretype f))
      else if name = ''start'' then Some (Number (fstart f))
      else if name = ''end'' then Some (Number (fend f))
      else if name = ''score'' then Some (Text (score f))
      else if name = ''strand'' then Some (Text (strand f))
      else if name = ''frame'' then Some (Text (frame f))
      else None)"

text \<open>
  \<open>getattr(f, name)\<close>: the value of the column as it is, \<open>None\<close> for a missing start or
  end included. For a name that is no column the class answers through \<open>other\<close>, and
  an attribute the class does not have is Python's \<open>AttributeError\<close>.
\<close>

definition getattr ::
  "(feature \<Rightarrow> string \<Rightarrow> field_value option) \<Rightarrow> feature \<Rightarrow> string \<Rightarrow> error + field_value" where
  "getattr other f name =
     (case field_value f name of
        Some v \<Rightarrow> Inr v
      | None \<Rightarrow>
          (case other f name of
             Some v \<Rightarrow> Inr v
           | None \<Rightarrow> Inl (AttributeError name)))"

definition is_sentinel :: "string \<Rightarrow> bool" where
  "is_sentinel k = (length k > 3 \<and> hd k = CHR '':'' \<and> last k = CHR '':'')"

text \<open>
  The loop of \<open>_id_handler\<close> over the candidates, \<open>for k in id_key\<close>. It returns the id
  (the Python value, which for a sentinel is whatever the column holds), the feature (an
  empty value list met on the way is deleted from its attributes) and the counters. A
  sentinel returns at once, and so does a key whose value list is not empty, whatever
  its first element. A callable that returns nothing falls through to \<open>len(k)\<close>, which a
  function does not have.
\<close>

fun try_keys ::
  "(feature \<Rightarrow> string \<Rightarrow> field_value option) \<Rightarrow> id_key list \<Rightarrow> feature \<Rightarrow> (string \<Rightarrow> nat) \<Rightarrow>
     error + (field_value \<times> feature \<times> (string \<Rightarrow> nat))" where
  "try_keys other [] f ctr =
     (let (i, ctr') = increment_featuretype_autoid (featuretype f) ctr in Inr (Text i, f, ctr'))"
| "try_keys other (Func g # ks) f ctr =
     (case g f of
        None \<Rightarrow> Inl (TypeError ''len'')
      | Some s \<Rightarrow>
          if s = [] then Inl (TypeError ''len'')
          else if take 14 s = ''autoincrement:'' then
            (let (i, ctr') = increment_featuretype_autoid (drop 14 s) ctr
             in Inr (Text i, f, ctr'))
          else Inr (Text s, f, ctr))"
| "try_keys other (Key k # ks) f ctr =
     (if is_sentinel k then
        (case getattr other f (butlast (tl k)) of
           Inl e \<Rightarrow> Inl e
         | Inr v \<Rightarrow> Inr (v, f, ctr))
      else
        (let v = dict_get (attributes f) k in
         if length v = 0
         then try_keys other ks (f\<lparr>attributes := AList.delete k (attributes f)\<rparr>) ctr
         else Inr (Text (hd v), f, ctr)))"

definition id_handler ::
  "(feature \<Rightarrow> string \<Rightarrow> field_value option) \<Rightarrow> id_spec \<Rightarrow> feature \<Rightarrow> (string \<Rightarrow> nat) \<Rightarrow>
     error + (field_value \<times> feature \<times> (string \<Rightarrow> nat))" where
  "id_handler other spec f ctr =
     (case spec of
        Scalar s \<Rightarrow> try_keys other [Key s] f ctr
      | Callable g \<Rightarrow> try_keys other [Func g] f ctr
      | ByType d \<Rightarrow>
          (case map_of d (featuretype f) of
             None \<Rightarrow>
               (let (i, ctr') = increment_featuretype_autoid (featuretype f) ctr
                in Inr (Text i, f, ctr'))
           | Some (Str s) \<Rightarrow> try_keys other [Key s] f ctr
           | Some (Seq ks) \<Rightarrow> try_keys other ks f ctr)
      | Keys ks \<Rightarrow> try_keys other ks f ctr)"

section \<open>The store\<close>

text \<open>
  Modelled from the spec: the schema (\<open>constants.SCHEMA\<close>) is not part of the sources.
  \<open>id\<close> is the primary key of \<open>features\<close>, and a row of \<open>relations\<close> is unique. An
  \<open>INSERT\<close> into \<open>features\<close> whose id is already there raises \<open>IntegrityError\<close>, here
  \<open>None\<close>. The attributes are stored as JSON and read back as they were.
\<close>

definition sql_insert :: "feature \<Rightarrow> feature list \<Rightarrow> feature list option" where
  "sql_insert f rows = (if fid f \<in> set (map fid rows) then None else Some (rows @ [f]))"

definition sql_update_attributes :: "attrs \<Rightarrow> string \<Rightarrow> feature list \<Rightarrow> feature list" where
  "sql_update_attributes a i rows =
     map (\<lambda>r. if fid r = i then r\<lparr>attributes := a\<rparr> else r) rows"

definition insert_or_ignore :: "relation \<Rightarrow> relation list \<Rightarrow> relation list" where
  "insert_or_ignore r rows = (if r \<in> set rows then rows else rows @ [r])"

definition get_feature :: "feature list \<Rightarrow> string \<Rightarrow> feature option" where
  "get_feature rows i = find (\<lambda>r. fid r = i) rows"

section \<open>The collision resolver\<close>

text \<open>
  Modelled from the spec: \<open>constants._gffkeys\<close> is not part of the sources. It names the
  nine columns of a line; \<open>_gffkeys[:-1]\<close> is every column but the attributes, the
  fields the spec has \<open>merge\<close> compare.
\<close>

definition gffkeys :: "string list" where
  "gffkeys = [''seqid'', ''source'', ''featuretype'', ''start'', ''end'', ''score'',
              ''strand'', ''frame'', ''attributes'']"

text \<open>\<open>for k, v in f.attributes.items(): attributes[k] = list(set(attributes[k]).union(v))\<close>\<close>

definition merge_attributes :: "attrs \<Rightarrow> attrs \<Rightarrow> attrs" where
  "merge_attributes old new =
     foldl (\<lambda>a (k, v). AList.update k (list_of_set (set (dict_get a k) \<union> set v)) a) old new"

text \<open>
  \<open>_do_merge\<close>, called with the feature \<open>f\<close> whose id is taken and with the iterator's
  \<open>current_item_number\<close> and \<open>current_item\<close>. It returns \<open>fixed\<close>, the feature \<open>f\<close> itself
  (\<open>create_unique\<close> assigns to \<open>f.id\<close>) and the store (\<open>create_unique\<close> counts).
\<close>

definition do_merge ::
  "config \<Rightarrow> db \<Rightarrow> nat \<times> feature \<Rightarrow> feature \<Rightarrow> error + (feature option \<times> feature \<times> db)" where
  "do_merge cfg st it f =
     (case merge_strategy cfg of
        Error \<Rightarrow> Inl (DuplicateID (fid f))
      | Warning \<Rightarrow> Inr (None, f, st)
      | Replace \<Rightarrow> Inr (Some f, f, st)
      | Merge \<Rightarrow>
          (case get_feature (features st) (fid f) of
             None \<Rightarrow> Inl (TypeError ''Feature'')
           | Some existing_feature \<Rightarrow>
               if list_all (\<lambda>k. field_value existing_feature k = field_value f k) (butlast gffkeys)
               then Inr (Some (existing_feature
                      \<lparr>attributes := merge_attributes (attributes existing_feature) (attributes f)\<rparr>),
                    f, st)
               else Inl (MergeAssertion (fid f) (fst it) (snd it)))
      | CreateUnique \<Rightarrow>
          (let (i, ctr) = increment_featuretype_autoid (fid f) (autoincrements st);
               f' = f\<lparr>fid := i\<rparr>
           in Inr (Some f', f', st\<lparr>autoincrements := ctr\<rparr>))
      | Other s \<Rightarrow> Inl (InvalidMergeStrategy s))"

section \<open>First pass\<close>

text \<open>
  The \<open>try\<close>/\<open>except sqlite3.IntegrityError\<close> block of \<open>_populate_from_lines\<close>, the same
  text in both drivers. It returns \<open>f\<close> as the block leaves it, and the store.
\<close>

definition insert_feature ::
  "config \<Rightarrow> db \<Rightarrow> nat \<times> feature \<Rightarrow> feature \<Rightarrow> error + (feature \<times> db)" where
  "insert_feature cfg st it f =
     (case sql_insert f (features st) of
        Some rows \<Rightarrow> Inr (f, st\<lparr>features := rows\<rparr>)
      | None \<Rightarrow>
          (case do_merge cfg st it f of
             Inl e \<Rightarrow> Inl e
           | Inr (fixed, f', st') \<Rightarrow>
               if merge_strategy cfg = Merge \<or> merge_strategy cfg = Replace then
                 (case fixed of
                    None \<Rightarrow> Inl NoneHasNoAttributes
                  | Some x \<Rightarrow>
                      Inr (f', st'\<lparr>features :=
                             sql_update_attributes (attributes x) (fid x) (features st')\<rparr>))
               else if merge_strategy cfg = CreateUnique then
                 (case sql_insert f' (features st') of
                    None \<Rightarrow> Inl (IntegrityError (fid f'))
                  | Some rows \<Rightarrow> Inr (f', st'\<lparr>features := rows\<rparr>))
               else Inr (f', st')))"

text \<open>
  Modelled from the spec: the schema is not part of the sources. The id column holds
  text, so the store keeps an integer id as its decimal text, and a value of a type that
  cannot be bound to a column is the \<open>InterfaceError\<close> of the \<open>INSERT\<close>. The spec has an id
  be a non-empty text, and the tables of the model hold text ids only: a record whose
  id is \<open>None\<close> is not followed into the store, the run stops there with \<open>NoneId\<close>.
\<close>

definition bind_id :: "field_value \<Rightarrow> error + string" where
  "bind_id v =
     (case v of
        Text s \<Rightarrow> Inr s
      | Number (Some i) \<Rightarrow> Inr (str_int i)
      | Number None \<Rightarrow> Inl NoneId
      | Object \<Rightarrow> Inl InterfaceError)"

text \<open>
  A record of the input comes with the number the iterator gives it
  (\<open>current_item_number\<close>). \<open>assign_id\<close> is \<open>f.id = self._id_handler(f)\<close>, with the id as
  the \<open>INSERT\<close> that follows it binds it.
\<close>

type_synonym item = "nat \<times> feature"

definition assign_id :: "config \<Rightarrow> db \<Rightarrow> feature \<Rightarrow> error + (feature \<times> db)" where
  "assign_id cfg st f0 =
     (case id_handler (other_attribute cfg) (id_spec cfg) f0 (autoincrements st) of
        Inl e \<Rightarrow> Inl e
      | Inr (v, f1, ctr) \<Rightarrow>
          (case bind_id v of
             Inl e \<Rightarrow> Inl e
           | Inr i \<Rightarrow> Inr (f1\<lparr>fid := i\<rparr>, st\<lparr>autoincrements := ctr\<rparr>)))"

subsection \<open>GFF\<close>

text \<open>The body of the loop of \<open>_GFFDBCreator._populate_from_lines\<close> (\<open>ONEBYONE\<close> is true).\<close>

definition gff_record :: "config \<Rightarrow> db \<Rightarrow> item \<Rightarrow> error + db" where
  "gff_record cfg st it =
     (case assign_id cfg st (snd it) of
        Inl e \<Rightarrow> Inl e
      | Inr (f, st1) \<Rightarrow>
          (case insert_feature cfg st1 (fst it, f) f of
             Inl e \<Rightarrow> Inl e
           | Inr (f', st2) \<Rightarrow>
               Inr (st2\<lparr>relations :=
                      foldl (\<lambda>rel p. insert_or_ignore (p, fid f', 1) rel) (relations st2)
                        (dict_get (attributes f') ''Parent'')\<rparr>)))"

fun gff_loop :: "config \<Rightarrow> item list \<Rightarrow> db \<Rightarrow> error + db" where
  "gff_loop cfg [] st = Inr st"
| "gff_loop cfg (it # its) st =
     (case gff_record cfg st it of Inl e \<Rightarrow> Inl e | Inr st' \<Rightarrow> gff_loop cfg its st')"

text \<open>In verbose mode the source sets \<open>i = 0\<close> before the last message, so nothing is raised.\<close>

definition gff_populate_from_lines :: "config \<Rightarrow> item list \<Rightarrow> db \<Rightarrow> error + db" where
  "gff_populate_from_lines cfg lines st = gff_loop cfg lines st"

subsection \<open>GTF\<close>

text \<open>The relations a record gives in \<open>_GTFDBCreator._populate_from_lines\<close>.\<close>

definition gtf_relations :: "config \<Rightarrow> feature \<Rightarrow> error + relation list" where
  "gtf_relations cfg f =
     (case (if map_of (attributes f) (transcript_key cfg) \<noteq> None
            then (case dict_get (attributes f) (transcript_key cfg) of
                    [] \<Rightarrow> Inl IndexError
                  | p # _ \<Rightarrow> Inr (Some p))
            else Inr None) of
        Inl e \<Rightarrow> Inl e
      | Inr par \<Rightarrow>
          Inr ((case par of None \<Rightarrow> [] | Some p \<Rightarrow> [(p, fid f, 1)]) @
               (if map_of (attributes f) (gene_key cfg) \<noteq> None
                then (case dict_get (attributes f) (gene_key cfg) of
                        [] \<Rightarrow> []
                      | g # _ \<Rightarrow>
                          (g, fid f, 2) # (case par of None \<Rightarrow> [] | Some p \<Rightarrow> [(g, p, 1)]))
                else [])))"

definition gtf_record :: "config \<Rightarrow> db \<Rightarrow> item \<Rightarrow> error + db" where
  "gtf_record cfg st it =
     (case assign_id cfg st (snd it) of
        Inl e \<Rightarrow> Inl e
      | Inr (f, st1) \<Rightarrow>
          (case insert_feature cfg st1 (fst it, f) f of
             Inl e \<Rightarrow> Inl e
           | Inr (f', st2) \<Rightarrow>
               (case gtf_relations cfg f' of
                  Inl e \<Rightarrow> Inl e
                | Inr rs \<Rightarrow>
                    Inr (st2\<lparr>relations :=
                           foldl (\<lambda>rel r. insert_or_ignore r rel) (relations st2) rs\<rparr>))))"

fun gtf_loop :: "config \<Rightarrow> item list \<Rightarrow> db \<Rightarrow> error + db" where
  "gtf_loop cfg [] st = Inr st"
| "gtf_loop cfg (it # its) st =
     (case gtf_record cfg st it of Inl e \<Rightarrow> Inl e | Inr st' \<Rightarrow> gtf_loop cfg its st')"

text \<open>
  After the loop the verbose message formats the loop variable \<open>i\<close>, which an empty
  sequence never binds.
\<close>

definition gtf_populate_from_lines :: "config \<Rightarrow> item list \<Rightarrow> db \<Rightarrow> error + db" where
  "gtf_populate_from_lines cfg lines st =
     (case gtf_loop cfg lines st of
        Inl e \<Rightarrow> Inl e
      | Inr st' \<Rightarrow> if verbose cfg \<and> lines = [] then Inl (UnboundLocalError ''i'') else Inr st')"

section \<open>Second pass\<close>

text \<open>
  Both second passes write what they query to a scratch file, one tab-separated line per
  row, and read the file back before they insert. The model keeps the rows as a list:
  it takes ids free of tabs, line breaks and surrounding blanks, for which a line reads
  back as it was written.
\<close>

subsection \<open>GFF\<close>

text \<open>
  \<open>SELECT child FROM relations WHERE parent IN (SELECT child FROM relations WHERE parent = ?)\<close>.
  The query does not look at the level of a row.
\<close>

definition grandchildren :: "relation list \<Rightarrow> string \<Rightarrow> string list" where
  "grandchildren rel p =
     map child (filter (\<lambda>r. parent r \<in> set (map child (filter (\<lambda>s. parent s = p) rel))) rel)"

definition gff_update_relations :: "db \<Rightarrow> db" where
  "gff_update_relations st =
     (let scratch =
        concat (map (\<lambda>f. map (\<lambda>g. (fid f, g)) (grandchildren (relations st) (fid f)))
          (features st))
      in st\<lparr>relations :=
           foldl (\<lambda>rel (p, c). insert_or_ignore (p, c, 2) rel) (relations st) scratch\<rparr>)"

subsection \<open>GTF\<close>

text \<open>
  The first query: the distinct level-1 parents of the rows of type \<open>subfeature\<close> (the
  transcripts), each with its own level-1 parents (the genes), ordered by gene.
\<close>

definition transcripts_and_genes :: "config \<Rightarrow> db \<Rightarrow> (string \<times> string) list" where
  "transcripts_and_genes cfg st =
     (let firstlevel =
        remdups [parent r. r \<leftarrow> relations st, f \<leftarrow> features st,
                 fid f = child r \<and> featuretype f = subfeature cfg \<and> level r = 1]
      in sort_key snd
           (remdups [(t, parent r). t \<leftarrow> firstlevel, r \<leftarrow> relations st,
                     t = child r \<and> level r = 1]))"

text \<open>\<open>MIN\<close> and \<open>MAX\<close> skip \<open>NULL\<close> and are \<open>NULL\<close> over no value.\<close>

definition sql_min :: "int option list \<Rightarrow> int option" where
  "sql_min xs = (case List.map_filter (\<lambda>x. x) xs of [] \<Rightarrow> None | y # ys \<Rightarrow> Some (fold min ys y))"

definition sql_max :: "int option list \<Rightarrow> int option" where
  "sql_max xs = (case List.map_filter (\<lambda>x. x) xs of [] \<Rightarrow> None | y # ys \<Rightarrow> Some (fold max ys y))"

text \<open>
  \<open>SELECT MIN(start), MAX(end), strand, seqid FROM features JOIN relations ON
  features.id = relations.child WHERE parent = ? AND featuretype == ?\<close>. Over no row all
  four are \<open>NULL\<close>. Modelled from the spec: the store may take strand and seqid from any
  of the rows; the spec has the first seen win.
\<close>

definition extent ::
  "config \<Rightarrow> db \<Rightarrow> string \<Rightarrow> int option \<times> int option \<times> string option \<times> string option" where
  "extent cfg st p =
     (let rows = [f. f \<leftarrow> features st, r \<leftarrow> relations st,
                  fid f = child r \<and> parent r = p \<and> featuretype f = subfeature cfg]
      in (sql_min (map fstart rows), sql_max (map fend rows),
          (case rows of [] \<Rightarrow> None | f # _ \<Rightarrow> Some (strand f)),
          (case rows of [] \<Rightarrow> None | f # _ \<Rightarrow> Some (seqid f))))"

text \<open>
  A derived record as \<open>derived_feature_generator\<close> builds it from a line of the scratch
  file. \<open>str\<close> writes a missing strand or seqid as \<open>None\<close>. Modelled from the spec: the
  module \<open>bins\<close> is not part of the sources. It is applied to the extent before the line
  is written; a bin is the index of an interval, and the model takes \<open>bins.bins\<close> to fail
  when the start or the end is missing.
\<close>

definition derived_feature ::
  "string \<Rightarrow> attrs \<Rightarrow> int option \<times> int option \<times> string option \<times> string option
     \<Rightarrow> error + feature" where
  "derived_feature ftype attrs e =
     (case e of (s, e', str, sq) \<Rightarrow>
        if s = None \<or> e' = None then Inl (TypeError ''bins'')
        else Inr \<lparr>fid = [], seqid = (case sq of None \<Rightarrow> ''None'' | Some x \<Rightarrow> x),
                  source = ''gffutils_derived'', featuretype = ftype, fstart = s, fend = e',
                  score = ''.'', strand = (case str of None \<Rightarrow> ''None'' | Some x \<Rightarrow> x),
                  frame = ''.'', attributes = attrs, extra = []\<rparr>)"

text \<open>
  The loop over the rows of the first query: a transcript for every row, a gene when the
  gene id differs from the one of the row before. The attributes of a transcript are the
  dictionary \<open>{transcript_key: [transcript_id], gene_key: [gene_id]}\<close>.
\<close>

fun derive :: "config \<Rightarrow> db \<Rightarrow> string option \<Rightarrow> (string \<times> string) list \<Rightarrow> error + feature list" where
  "derive cfg st last_gene_id [] = Inr []"
| "derive cfg st last_gene_id ((transcript_id, gene_id) # rows) =
     (case derived_feature ''transcript''
             (AList.update (gene_key cfg) [gene_id] [(transcript_key cfg, [transcript_id])])
             (extent cfg st transcript_id) of
        Inl e \<Rightarrow> Inl e
      | Inr t \<Rightarrow>
          (case (if Some gene_id \<noteq> last_gene_id
                 then (case derived_feature ''gene'' [(gene_key cfg, [gene_id])]
                              (extent cfg st gene_id) of
                         Inl e \<Rightarrow> Inl e
                       | Inr g \<Rightarrow> Inr [t, g])
                 else Inr [t]) of
             Inl e \<Rightarrow> Inl e
           | Inr ds \<Rightarrow>
               (case derive cfg st (Some gene_id) rows of
                  Inl e \<Rightarrow> Inl e
                | Inr rest \<Rightarrow> Inr (ds @ rest))))"

text \<open>
  The last loop of \<open>_GTFDBCreator._update_relations\<close>: the id of the derived record, the
  \<open>INSERT\<close>, and on \<open>IntegrityError\<close> the call \<open>self._do_merge(f)\<close> followed by the
  \<open>UPDATE\<close> of the attributes of the row \<open>fixed.id\<close>. \<open>_do_merge\<close> reads
  \<open>self.merge_strategy\<close>.
\<close>

definition insert_derived :: "config \<Rightarrow> item \<Rightarrow> db \<Rightarrow> feature \<Rightarrow> error + db" where
  "insert_derived cfg it st d =
     (case assign_id cfg st d of
        Inl e \<Rightarrow> Inl e
      | Inr (f, st1) \<Rightarrow>
          (case sql_insert f (features st1) of
             Some rows \<Rightarrow> Inr (st1\<lparr>features := rows\<rparr>)
           | None \<Rightarrow>
               (case do_merge cfg st1 it f of
                  Inl e \<Rightarrow> Inl e
                | Inr (fixed, f', st2) \<Rightarrow>
                    (case fixed of
                       None \<Rightarrow> Inl NoneHasNoAttributes
                     | Some x \<Rightarrow>
                         Inr (st2\<lparr>features :=
                                sql_update_attributes (attributes x) (fid x) (features st2)\<rparr>)))))"

fun insert_all_derived :: "config \<Rightarrow> item \<Rightarrow> feature list \<Rightarrow> db \<Rightarrow> error + db" where
  "insert_all_derived cfg it [] st = Inr st"
| "insert_all_derived cfg it (d # ds) st =
     (case insert_derived cfg it st d of
        Inl e \<Rightarrow> Inl e
      | Inr st' \<Rightarrow> insert_all_derived cfg it ds st')"

text \<open>\<open>it\<close> is the item the creator's iterator holds when the second pass runs.\<close>

definition gtf_update_relations :: "config \<Rightarrow> item \<Rightarrow> db \<Rightarrow> error + db" where
  "gtf_update_relations cfg it st =
     (case derive cfg st None (transcripts_and_genes cfg st) of
        Inl e \<Rightarrow> Inl e
      | Inr ds \<Rightarrow> insert_all_derived cfg it ds st)"

section \<open>Creating and updating a store\<close>

text \<open>\<open>_init_tables\<close> creates the tables, and a new creator has counted nothing.\<close>

definition init_tables :: db where
  "init_tables = \<lparr>features = [], relations = [], autoincrements = (\<lambda>k. 0)\<rparr>"

text \<open>
  \<open>update\<close> is \<open>_populate_from_lines\<close> followed by \<open>_update_relations\<close> on the store as it
  is; \<open>create\<close> is the same on the new tables.
\<close>

definition gff_update :: "config \<Rightarrow> item list \<Rightarrow> db \<Rightarrow> error + db" where
  "gff_update cfg lines st =
     (case gff_populate_from_lines cfg lines st of
        Inl e \<Rightarrow> Inl e
      | Inr st' \<Rightarrow> Inr (gff_update_relations st'))"

definition gff_create :: "config \<Rightarrow> item list \<Rightarrow> error + db" where
  "gff_create cfg lines = gff_update cfg lines init_tables"

definition gtf_update :: "config \<Rightarrow> item \<Rightarrow> item list \<Rightarrow> db \<Rightarrow> error + db" where
  "gtf_update cfg it lines st =
     (case gtf_populate_from_lines cfg lines st of
        Inl e \<Rightarrow> Inl e
      | Inr st' \<Rightarrow> gtf_update_relations cfg it st')"

definition gtf_create :: "config \<Rightarrow> item \<Rightarrow> item list \<Rightarrow> error + db" where
  "gtf_create cfg it lines = gtf_update cfg it lines init_tables"

section \<open>The writer\<close>

text \<open>
  \<open>GFFWriter\<close> reads the store through \<open>db[id]\<close> and \<open>db.children(id, level, featuretype)\<close>
  and takes \<open>len(exon)\<close> of a feature. The interface module is not part of the sources;
  the three are parameters. \<open>db[id]\<close> raises for an id that is not there. A written
  record stands for the line \<open>str(rec)\<close> the writer appends to its stream.
\<close>

record feature_db =
  getitem :: "string \<Rightarrow> feature option"
  children :: "string \<Rightarrow> nat option \<Rightarrow> string option \<Rightarrow> feature list"
  feature_len :: "feature \<Rightarrow> nat"

text \<open>
  \<open>sorted(d.items(), key=lambda x: x[1])\<close> is stable, and with \<open>reverse=True\<close> it
  keeps equal keys in their order all the same. A dictionary built in a loop is an
  association list in the order of first insertion.
\<close>

definition py_sorted :: "('a \<Rightarrow> 'k::linorder) \<Rightarrow> 'a list \<Rightarrow> 'a list" where
  "py_sorted key xs = sort_key key xs"

definition py_sorted_reverse :: "('a \<Rightarrow> 'k::linorder) \<Rightarrow> 'a list \<Rightarrow> 'a list" where
  "py_sorted_reverse key xs = rev (sort_key key (rev xs))"

definition write_exon_children :: "feature_db \<Rightarrow> string \<Rightarrow> feature list" where
  "write_exon_children db exon_id = children db exon_id None None"

definition exon_starts :: "feature list \<Rightarrow> (string \<times> int option) list" where
  "exon_starts mRNA_children =
     foldl (\<lambda>d child_rec.
              if featuretype child_rec = ''exon''
              then AList.update (fid child_rec) (fstart child_rec) d else d)
       [] mRNA_children"

fun write_exons :: "feature_db \<Rightarrow> (string \<times> int option) list \<Rightarrow> error + feature list" where
  "write_exons db [] = Inr []"
| "write_exons db (curr_exon # rest) =
     (case getitem db (fst curr_exon) of
        None \<Rightarrow> Inl (FeatureNotFoundError (fst curr_exon))
      | Some exon_rec \<Rightarrow>
          (case write_exons db rest of
             Inl e \<Rightarrow> Inl e
           | Inr out \<Rightarrow> Inr (exon_rec # write_exon_children db (fst curr_exon) @ out)))"

definition write_mRNA_children :: "feature_db \<Rightarrow> string \<Rightarrow> error + feature list" where
  "write_mRNA_children db mRNA_id =
     (let mRNA_children = children db mRNA_id None None;
          nonexonic_children = filter (\<lambda>c. featuretype c \<noteq> ''exon'') mRNA_children;
          sorted_exons = py_sorted snd (exon_starts mRNA_children)
      in case write_exons db sorted_exons of
           Inl e \<Rightarrow> Inl e
         | Inr out \<Rightarrow> Inr (out @ nonexonic_children))"

definition mRNA_lens :: "feature_db \<Rightarrow> string \<Rightarrow> (string \<times> nat) list" where
  "mRNA_lens db gene_id =
     foldl (\<lambda>d mRNA.
              AList.update (fid mRNA)
                (sum_list (map (feature_len db) (children db (fid mRNA) None (Some ''exon'')))) d)
       [] (children db gene_id None (Some ''mRNA''))"

fun write_mRNAs :: "feature_db \<Rightarrow> (string \<times> nat) list \<Rightarrow> error + feature list" where
  "write_mRNAs db [] = Inr []"
| "write_mRNAs db (curr_mRNA # rest) =
     (case getitem db (fst curr_mRNA) of
        None \<Rightarrow> Inl (FeatureNotFoundError (fst curr_mRNA))
      | Some mRNA_rec \<Rightarrow>
          (case write_mRNA_children db (fst curr_mRNA) of
             Inl e \<Rightarrow> Inl e
           | Inr cs \<Rightarrow>
               (case write_mRNAs db rest of
                  Inl e \<Rightarrow> Inl e
                | Inr out \<Rightarrow> Inr (mRNA_rec # cs @ out))))"

definition write_gene_recs :: "feature_db \<Rightarrow> string \<Rightarrow> error + feature list" where
  "write_gene_recs db gene_id =
     (case getitem db gene_id of
        None \<Rightarrow> Inl (FeatureNotFoundError gene_id)
      | Some gene_rec \<Rightarrow>
          (case write_mRNAs db (py_sorted_reverse snd (mRNA_lens db gene_id)) of
             Inl e \<Rightarrow> Inl e
           | Inr out \<Rightarrow>
               Inr (gene_rec # out @
                    filter (\<lambda>gene_child. featuretype gene_child \<noteq> ''mRNA'')
                      (children db gene_id (Some 1) None))))"

section \<open>Example inputs\<close>

definition example_feature :: "string \<Rightarrow> int \<Rightarrow> int \<Rightarrow> attrs \<Rightarrow> feature" where
  "example_feature t s e a =
     \<lparr>fid = [], seqid = ''chr1'', source = ''.'', featuretype = t, fstart = Some s,
      fend = Some e, score = ''.'', strand = ''+'', frame = ''.'', attributes = a, extra = []\<rparr>"

text \<open>
  The configurations \<open>create_db\<close> sets up for a GFF and for a GTF input, for a class
  \<open>Feature\<close> that has no attribute but the columns.
\<close>

definition gff_config :: "merge_strategy \<Rightarrow> config" where
  "gff_config m =
     \<lparr>merge_strategy = m, id_spec = Scalar ''ID'', verbose = True,
      transcript_key = ''transcript_id'', gene_key = ''gene_id'', subfeature = ''exon'',
      other_attribute = (\<lambda>f name. None)\<rparr>"

definition gtf_config :: "merge_strategy \<Rightarrow> bool \<Rightarrow> config" where
  "gtf_config m v =
     \<lparr>merge_strategy = m,
      id_spec = ByType [(''gene'', Str ''gene_id''), (''transcript'', Str ''transcript_id'')],
      verbose = v, transcript_key = ''transcript_id'', gene_key = ''gene_id'',
      subfeature = ''exon'', other_attribute = (\<lambda>f name. None)\<rparr>"

text \<open>A store that holds the gene \<open>x\<close>, and a second record that resolves to the id \<open>x\<close>.\<close>

definition store_x :: db where
  "store_x =
     \<lparr>features = [example_feature ''gene'' 1 5 [(''ID'', [''x''])]\<lparr>fid := ''x''\<rparr>],
      relations = [], autoincrements = (\<lambda>k. 0)\<rparr>"

definition second_x :: feature where
  "second_x = example_feature ''gene'' 1 5 [(''ID'', [''x'']), (''Parent'', [''p''])]"

text \<open>A GTF input: a gene line, and an exon of the transcript \<open>T1\<close> of that gene.\<close>

definition gtf_gene_and_exon :: "item list" where
  "gtf_gene_and_exon =
     [(0, example_feature ''gene'' 100 150 [(''gene_id'', [''G1''])]),
      (1, example_feature ''exon'' 100 150 [(''gene_id'', [''G1'']), (''transcript_id'', [''T1''])])]"

text \<open>A GFF input: a chain of four features, each the \<open>Parent\<close> of the next.\<close>

definition gff_chain :: "item list" where
  "gff_chain =
     [(0, example_feature ''gene'' 1 90 [(''ID'', [''a''])]),
      (1, example_feature ''mRNA'' 1 90 [(''ID'', [''b'']), (''Parent'', [''a''])]),
      (2, example_feature ''exon'' 1 50 [(''ID'', [''c'']), (''Parent'', [''b''])]),
      (3, example_feature ''part'' 1 20 [(''ID'', [''d'']), (''Parent'', [''c''])])]"

text \<open>A GFF input: two lines with the id \<open>x\<close> that differ in their start.\<close>

definition gff_two_starts :: "item list" where
  "gff_two_starts =
     [(0, example_feature ''gene'' 1 5 [(''ID'', [''x''])]),
      (1, example_feature ''gene'' 2 5 [(''ID'', [''x''])])]"

text \<open>
  A store whose row \<open>x\<close> holds the values \<open>b, a\<close> under \<open>Note\<close>, and a second line for
  \<open>x\<close> with the values \<open>a, c\<close>.
\<close>

definition store_note :: db where
  "store_note =
     \<lparr>features = [example_feature ''gene'' 1 5 [(''ID'', [''x'']), (''Note'', [''b'', ''a''])]
                    \<lparr>fid := ''x''\<rparr>],
      relations = [], autoincrements = (\<lambda>k. 0)\<rparr>"

definition second_note :: "string list \<Rightarrow> feature" where
  "second_note vs = example_feature ''gene'' 1 5 [(''ID'', [''x'']), (''Note'', vs)]\<lparr>fid := ''x''\<rparr>"

text \<open>A GFF input of one line without an \<open>ID\<close>, and one with ids and a \<open>Note\<close>.\<close>

definition gff_no_id :: "item list" where
  "gff_no_id = [(0, example_feature ''gene'' 1 5 [])]"

definition gff_note :: "item list" where
  "gff_note =
     [(0, example_feature ''gene'' 1 5 [(''ID'', [''x'']), (''Note'', [''b'', ''a''])]),
      (1, example_feature ''mRNA'' 1 5 [(''ID'', [''y'']), (''Parent'', [''x''])])]"

section \<open>Definitions that follow the words of the claims\<close>

text \<open>
  The order claim C4 gives for a merged value list: the stored values first, in their
  stored order, then the values that are new.
\<close>

definition existing_first_new_second :: "string list \<Rightarrow> string list \<Rightarrow> string list" where
  "existing_first_new_second old new = old @ filter (\<lambda>v. v \<notin> set old) new"


definition sentinel_columns :: "feature \<Rightarrow> (string \<times> field_value) list" where
  "sentinel_columns f =
     [('':seqid:'', Text (seqid f)), ('':start:'', Number (fstart f)),
      ('':end:'', Number (fend f)), ('':strand:'', Text (strand f)),
      ('':source:'', Text (source f)), ('':featuretype:'', Text (featuretype f)),
      ('':score:'', Text (score f)), ('':frame:'', Text (frame f))]"

text \<open>
  What a candidate reads: a sentinel reads its column, any other key reads the first
  element of the value list of the attribute, and an attribute with no value reads
  nothing. \<open>yielded\<close> are the values the candidates read, in the order of the candidates.
\<close>

definition reads :: "feature \<Rightarrow> string \<Rightarrow> field_value option" where
  "reads f k =
     (case map_of (sentinel_columns f) k of
        Some v \<Rightarrow> Some v
      | None \<Rightarrow> (case dict_get (attributes f) k of [] \<Rightarrow> None | v # vs \<Rightarrow> Some (Text v)))"

definition yielded :: "feature \<Rightarrow> string list \<Rightarrow> field_value list" where
  "yielded f ks = List.map_filter (reads f) ks"

text \<open>The id of the fallback: the feature type, an underscore, the counter after its increment.\<close>

definition fallback_id :: "feature \<Rightarrow> (string \<Rightarrow> nat) \<Rightarrow> field_value" where
  "fallback_id f ctr = Text (featuretype f @ ''_'' @ str_nat (ctr (featuretype f) + 1))"

text \<open>
  The id as the claim has it: the first value read that is not empty (neither the empty
  text nor \<open>None\<close>), and the fallback when there is none.
\<close>

definition non_empty :: "field_value \<Rightarrow> bool" where
  "non_empty v = (v \<noteq> Text [] \<and> v \<noteq> Number None)"

definition claimed_id :: "string list \<Rightarrow> feature \<Rightarrow> (string \<Rightarrow> nat) \<Rightarrow> field_value" where
  "claimed_id ks f ctr =
     (case filter non_empty (yielded f ks) of
        v # vs \<Rightarrow> v
      | [] \<Rightarrow> fallback_id f ctr)"



text \<open>
  Claim C9 in its words. The summed length of the exon children of an mRNA, the part of
  the output for one exon, the section for one mRNA, and the whole output for a gene.
\<close>

definition exon_total :: "feature_db \<Rightarrow> string \<Rightarrow> nat" where
  "exon_total db m = sum_list (map (feature_len db) (children db m None (Some ''exon'')))"

definition is_exon_part :: "feature_db \<Rightarrow> string \<times> int option \<Rightarrow> feature list \<Rightarrow> bool" where
  "is_exon_part db e out =
     (\<exists>exon_rec. getitem db (fst e) = Some exon_rec \<and>
        out = exon_rec # children db (fst e) None None)"

definition is_mRNA_section :: "feature_db \<Rightarrow> string \<Rightarrow> feature list \<Rightarrow> bool" where
  "is_mRNA_section db m out =
     (\<exists>mRNA_rec es parts.
        getitem db m = Some mRNA_rec \<and>
        fst ` set es = fid ` {c \<in> set (children db m None None). featuretype c = ''exon''} \<and>
        distinct (map fst es) \<and>
        list_all (\<lambda>e. \<exists>c \<in> set (children db m None None).
                     featuretype c = ''exon'' \<and> fid c = fst e \<and> fstart c = snd e) es \<and>
        sorted (map snd es) \<and>
        list_all2 (is_exon_part db) es parts \<and>
        out = mRNA_rec # concat parts @
              filter (\<lambda>c. featuretype c \<noteq> ''exon'') (children db m None None))"

definition is_canonical :: "feature_db \<Rightarrow> string \<Rightarrow> feature list \<Rightarrow> bool" where
  "is_canonical db gene_id out =
     (\<exists>gene_rec ms sections.
        getitem db gene_id = Some gene_rec \<and>
        set ms = fid ` set (children db gene_id None (Some ''mRNA'')) \<and>
        distinct ms \<and>
        sorted (rev (map (exon_total db) ms)) \<and>
        list_all2 (is_mRNA_section db) ms sections \<and>
        out = gene_rec # concat sections @
              filter (\<lambda>c. featuretype c \<noteq> ''mRNA'') (children db gene_id (Some 1) None))"

text \<open>
  A store for the writer: the gene \<open>g\<close> with the mRNAs \<open>m1\<close> (one exon of length 10) and
  \<open>m2\<close> (two exons of lengths 20 and 10, and a CDS), and a promoter below the gene.
\<close>

definition example_rec :: "string \<Rightarrow> string \<Rightarrow> int \<Rightarrow> int \<Rightarrow> feature" where
  "example_rec i t s e = example_feature t s e [(''ID'', [i])]\<lparr>fid := i\<rparr>"

definition example_db :: feature_db where
  "example_db =
     (let g = example_rec ''g'' ''gene'' 1 100;
          m1 = example_rec ''m1'' ''mRNA'' 50 59;
          m2 = example_rec ''m2'' ''mRNA'' 10 49;
          e1 = example_rec ''e1'' ''exon'' 50 59;
          e2 = example_rec ''e2'' ''exon'' 30 49;
          e3 = example_rec ''e3'' ''exon'' 10 19;
          c1 = example_rec ''c1'' ''CDS'' 12 40;
          p1 = example_rec ''p1'' ''promoter'' 1 9
      in \<lparr>getitem = map_of (map (\<lambda>r. (fid r, r)) [g, m1, m2, e1, e2, e3, c1, p1]),
          children = (\<lambda>i lvl ft.
            filter (\<lambda>c. case ft of None \<Rightarrow> True | Some t \<Rightarrow> featuretype c = t)
              (if i = ''g'' then (if lvl = Some 1 then [m1, m2, p1] else [m1, m2, p1, e1, e2, e3, c1])
               else if i = ''m1'' then [e1]
               else if i = ''m2'' then [e2, e3, c1]
               else [])),
          feature_len = (\<lambda>f. case (fstart f, fend f) of
                                (Some s, Some e) \<Rightarrow> nat (e - s + 1) | _ \<Rightarrow> 0)\<rparr>)"

section \<open>Definitions for the second ingest\<close>

text \<open>
  Two value lists hold the same values; two attribute dictionaries have the same keys in
  the same order with the same values under each; two rows agree in every column, their
  attributes up to the order and repetition of values.
\<close>

definition same_values :: "attrs \<Rightarrow> attrs \<Rightarrow> bool" where
  "same_values a b = list_all2 (\<lambda>x y. fst x = fst y \<and> set (snd x) = set (snd y)) a b"

definition same_row :: "feature \<Rightarrow> feature \<Rightarrow> bool" where
  "same_row r r' = (r'\<lparr>attributes := attributes r\<rparr> = r \<and> same_values (attributes r) (attributes r'))"

definition level1 :: "relation list \<Rightarrow> relation list" where
  "level1 rel = filter (\<lambda>r. level r = 1) rel"

text \<open>The comparison \<open>_do_merge\<close> makes between the stored row and the new record.\<close>

definition same_fields :: "feature \<Rightarrow> feature \<Rightarrow> bool" where
  "same_fields a b = list_all (\<lambda>k. field_value a k = field_value b k) (butlast gffkeys)"

text \<open>
  A record with its id is absorbed by a table when the row of that id agrees with it in
  the compared fields and holds, under every key of the record, all its values.
  \<open>gff_edges\<close> are the edges the GFF driver inserts for a record. \<open>resolves\<close>: the
  synthesiser gives the record its id without counting.
\<close>

definition row_absorbs :: "feature list \<Rightarrow> feature \<Rightarrow> bool" where
  "row_absorbs rows f =
     (\<exists>row. get_feature rows (fid f) = Some row \<and> same_fields row f \<and>
        list_all (\<lambda>kv. \<exists>old. map_of (attributes row) (fst kv) = Some old \<and> set (snd kv) \<subseteq> set old)
          (attributes f))"

definition gff_edges :: "feature \<Rightarrow> relation list" where
  "gff_edges f = map (\<lambda>P. (P, fid f, 1)) (dict_get (attributes f) ''Parent'')"

definition absorbed :: "db \<Rightarrow> feature \<Rightarrow> bool" where
  "absorbed st f =
     (row_absorbs (features st) f \<and> list_all (\<lambda>r. r \<in> set (relations st)) (gff_edges f))"

definition resolves :: "config \<Rightarrow> (string \<Rightarrow> nat) \<Rightarrow> feature \<Rightarrow> feature \<Rightarrow> bool" where
  "resolves cfg ctr f0 f =
     (\<exists>v f1. id_handler (other_attribute cfg) (id_spec cfg) f0 ctr = Inr (v, f1, ctr) \<and>
        bind_id v = Inr (fid f) \<and> f = f1\<lparr>fid := fid f\<rparr> \<and> distinct (map fst (attributes f)))"

text \<open>Every edge is of level 1 and ends in a row of \<open>features\<close>.\<close>

definition edges_ok :: "db \<Rightarrow> bool" where
  "edges_ok st = (list_all (\<lambda>r. level r = 1 \<and> child r \<in> set (map fid (features st))) (relations st))"

text \<open>
  The same for the GTF driver, with the edges it inserts for a record; and the columns
  of the rows of type \<open>subfeature\<close> that the second pass of the GTF driver reads.
\<close>

definition gtf_absorbed :: "config \<Rightarrow> db \<Rightarrow> feature \<Rightarrow> bool" where
  "gtf_absorbed cfg st f =
     (row_absorbs (features st) f \<and>
      (\<exists>rs. gtf_relations cfg f = Inr rs \<and> list_all (\<lambda>r. r \<in> set (relations st)) rs))"

definition sub_rows ::
  "config \<Rightarrow> feature list \<Rightarrow> (string \<times> int option \<times> int option \<times> string \<times> string) list" where
  "sub_rows cfg rows =
     map (\<lambda>f. (fid f, fstart f, fend f, strand f, seqid f))
       (filter (\<lambda>f. featuretype f = subfeature cfg) rows)"

text \<open>
  A GTF configuration whose \<open>id_spec\<close> names an attribute for exons too, and an exon
  line that has all three ids.
\<close>

definition gtf_config_ids :: config where
  "gtf_config_ids =
     (gtf_config Merge False)
       \<lparr>id_spec := ByType [(''gene'', Str ''gene_id''), (''transcript'', Str ''transcript_id''),
                           (''exon'', Str ''exon_id'')]\<rparr>"

definition gtf_exon_with_id :: "item list" where
  "gtf_exon_with_id =
     [(0, example_feature ''exon'' 100 150
            [(''gene_id'', [''G1'']), (''transcript_id'', [''T1'']), (''exon_id'', [''E1''])])]"

section \<open>Basic facts about the store\<close>

lemma set_foldl_insert_or_ignore:
  "set (foldl (\<lambda>rel x. insert_or_ignore (g x) rel) rel xs) = set rel \<union> g ` set xs"
  by (induction xs arbitrary: rel) (auto simp: insert_or_ignore_def)

lemma assign_id_tables:
  "assign_id cfg st f0 = Inr (f, st1) \<Longrightarrow>
     features st1 = features st \<and> relations st1 = relations st"
  by (auto simp: assign_id_def bind_id_def split: sum.splits prod.splits)

section \<open>A duplicate under \<open>warning\<close> in the GFF driver\<close>

text \<open>
  Claim C10. In the GFF driver under the policy \<open>warning\<close>, a record whose synthesised
  id is already the id of a row is skipped: the loop body succeeds and leaves \<open>features\<close>
  as it was. All the same, for every value \<open>P\<close> of the record's \<open>Parent\<close> attribute the
  edge \<open>(P, id, 1)\<close> is in \<open>relations\<close> afterwards, and no edge is lost.
\<close>

theorem gff_warning_skips_row_keeps_edges:
  assumes "merge_strategy cfg = Warning"
    and "assign_id cfg st (snd it) = Inr (f, st1)"
    and "fid f \<in> set (map fid (features st))"
  shows "\<exists>st'. gff_record cfg st it = Inr st' \<and> features st' = features st \<and>
           (\<forall>P \<in> set (dict_get (attributes f) ''Parent''). (P, fid f, 1) \<in> set (relations st')) \<and>
           set (relations st) \<subseteq> set (relations st')"
proof -
  from assms(2) have eq: "features st1 = features st" "relations st1 = relations st"
    using assign_id_tables by blast+
  have ins: "insert_feature cfg st1 (fst it, f) f = Inr (f, st1)"
    using assms(1,3) eq by (simp add: insert_feature_def sql_insert_def do_merge_def)
  show ?thesis
    using assms(2) ins eq
    by (simp add: gff_record_def set_foldl_insert_or_ignore)
qed

theorem gff_warning_skips_row_keeps_edges_witness:
  "merge_strategy (gff_config Warning) = Warning \<and>
   assign_id (gff_config Warning) store_x (snd (1, second_x)) = Inr (second_x\<lparr>fid := ''x''\<rparr>, store_x) \<and>
   fid (second_x\<lparr>fid := ''x''\<rparr>) \<in> set (map fid (features store_x)) \<and>
   gff_record (gff_config Warning) store_x (1, second_x)
     = Inr (store_x\<lparr>relations := [(''p'', ''x'', 1)]\<rparr>)"
proof -
  have h1: "merge_strategy (gff_config Warning) = Warning"
    by (simp add: gff_config_def)
  have h2: "assign_id (gff_config Warning) store_x (snd (1, second_x))
              = Inr (second_x\<lparr>fid := ''x''\<rparr>, store_x)"
    by (simp add: gff_config_def store_x_def second_x_def example_feature_def assign_id_def bind_id_def
        id_handler_def is_sentinel_def dict_get_def)
  have h3: "fid (second_x\<lparr>fid := ''x''\<rparr>) \<in> set (map fid (features store_x))"
    by (simp add: store_x_def)
  have "gff_record (gff_config Warning) store_x (1, second_x)
          = Inr (store_x\<lparr>relations := [(''p'', ''x'', 1)]\<rparr>)"
    using gff_warning_skips_row_keeps_edges [OF h1 h2 h3]
    by (simp add: gff_config_def store_x_def second_x_def example_feature_def gff_record_def
        assign_id_def bind_id_def id_handler_def is_sentinel_def dict_get_def insert_feature_def
        sql_insert_def do_merge_def insert_or_ignore_def)
  with h1 h2 h3 show ?thesis by blast
qed

section \<open>Evaluating the drivers on the example inputs\<close>

lemma map_sum_Inl_D: "map_sum id g x = Inl e \<Longrightarrow> x = Inl e"
  by (cases x) simp_all

lemma map_sum_Inr_D: "map_sum id g x = Inr y \<Longrightarrow> \<exists>s. x = Inr s \<and> g s = y"
  by (cases x) simp_all

text \<open>
  Claim C1 says that a derived gene or transcript whose id is taken is merged whatever
  the user's policy is, and that no duplicate-id error is raised under \<open>error\<close>. The
  second pass calls \<open>_do_merge\<close>, which reads the user's policy. On the input
  \<open>gtf_gene_and_exon\<close> under \<open>error\<close> the first pass succeeds and stores the gene \<open>G1\<close>
  and the exon; the second pass derives the gene \<open>G1\<close> again and raises the duplicate-id
  error.
\<close>

theorem gtf_derived_gene_raises_duplicate_id:
  "map_sum id (\<lambda>st. map fid (features st))
     (gtf_populate_from_lines (gtf_config Error False) gtf_gene_and_exon init_tables)
     = Inr [''G1'', ''exon_1''] \<and>
   gtf_create (gtf_config Error False) (1, example_feature ''exon'' 100 150 []) gtf_gene_and_exon
     = Inl (DuplicateID ''G1'')"
proof -
  have "map_sum id features
          (gtf_create (gtf_config Error False) (1, example_feature ''exon'' 100 150 [])
             gtf_gene_and_exon)
        = Inl (DuplicateID ''G1'')"
    by code_simp
  then have "gtf_create (gtf_config Error False) (1, example_feature ''exon'' 100 150 [])
               gtf_gene_and_exon = Inl (DuplicateID ''G1'')"
    by (rule map_sum_Inl_D)
  moreover have "map_sum id (\<lambda>st. map fid (features st))
      (gtf_populate_from_lines (gtf_config Error False) gtf_gene_and_exon init_tables)
      = Inr [''G1'', ''exon_1'']"
    by code_simp
  ultimately show ?thesis by simp
qed

text \<open>
  Claim C3 says that every level-2 edge \<open>(p, g)\<close> has a feature \<open>c\<close> between, with
  \<open>(p, c, 1)\<close> and \<open>(c, g, 1)\<close>. The closure query of the GFF driver does not look at
  the level of the rows it joins. After the chain \<open>a, b, c, d\<close> is created, the tables
  hold the level-2 edges \<open>(a, c)\<close> and \<open>(b, d)\<close>; an update with no record runs the
  closure over them and adds \<open>(a, d, 2)\<close>, which has no feature in between.
\<close>

theorem gff_update_level2_edge_without_midpoint:
  "\<exists>st st'. gff_create (gff_config Merge) gff_chain = Inr st \<and>
     relations st = [(''a'', ''b'', 1), (''b'', ''c'', 1), (''c'', ''d'', 1),
                     (''a'', ''c'', 2), (''b'', ''d'', 2)] \<and>
     gff_update (gff_config Merge) [] st = Inr st' \<and>
     (''a'', ''d'', 2) \<in> set (relations st') \<and>
     \<not> (\<exists>c. (''a'', c, 1) \<in> set (relations st') \<and> (c, ''d'', 1) \<in> set (relations st'))"
proof -
  have "map_sum id relations (gff_create (gff_config Merge) gff_chain)
        = Inr [(''a'', ''b'', 1), (''b'', ''c'', 1), (''c'', ''d'', 1),
               (''a'', ''c'', 2), (''b'', ''d'', 2)]"
    by code_simp
  then obtain st where st: "gff_create (gff_config Merge) gff_chain = Inr st"
      "relations st = [(''a'', ''b'', 1), (''b'', ''c'', 1), (''c'', ''d'', 1),
                       (''a'', ''c'', 2), (''b'', ''d'', 2)]"
    by (auto dest: map_sum_Inr_D)
  have "(case gff_create (gff_config Merge) gff_chain of
           Inl e \<Rightarrow> Inl e
         | Inr s \<Rightarrow> map_sum id relations (gff_update (gff_config Merge) [] s))
        = Inr [(''a'', ''b'', 1), (''b'', ''c'', 1), (''c'', ''d'', 1),
               (''a'', ''c'', 2), (''b'', ''d'', 2), (''a'', ''d'', 2)]"
    by code_simp
  with st(1) have "map_sum id relations (gff_update (gff_config Merge) [] st)
        = Inr [(''a'', ''b'', 1), (''b'', ''c'', 1), (''c'', ''d'', 1),
               (''a'', ''c'', 2), (''b'', ''d'', 2), (''a'', ''d'', 2)]"
    by simp
  then obtain st' where st': "gff_update (gff_config Merge) [] st = Inr st'"
      "relations st' = [(''a'', ''b'', 1), (''b'', ''c'', 1), (''c'', ''d'', 1),
                        (''a'', ''c'', 2), (''b'', ''d'', 2), (''a'', ''d'', 2)]"
    by (auto dest: map_sum_Inr_D)
  have a: "(''a'', ''d'', 2) \<in> set (relations st')"
    by (simp add: st'(2))
  have b: "\<not> (\<exists>c. (''a'', c, 1) \<in> set (relations st') \<and> (c, ''d'', 1) \<in> set (relations st'))"
    unfolding st'(2) by simp
  show ?thesis
    apply (rule exI [of _ st])
    apply (rule exI [of _ st'])
    using st st'(1) a b apply simp
    done
qed

text \<open>
  Claim C5 says that the merge-conflict error carries the name of the field that
  differs. The source formats the id of the record into the place of the field name:
  the error carries the id, the item number and the item. On \<open>gff_two_starts\<close> the two
  lines differ in \<open>start\<close>; the error holds \<open>x\<close>, 1 and the second line.
\<close>

theorem gff_merge_conflict_payload:
  "gff_create (gff_config Merge) gff_two_starts
     = Inl (MergeAssertion ''x'' 1 (example_feature ''gene'' 2 5 [(''ID'', [''x''])]\<lparr>fid := ''x''\<rparr>))"
proof -
  have "map_sum id features (gff_create (gff_config Merge) gff_two_starts)
        = Inl (MergeAssertion ''x'' 1
                (example_feature ''gene'' 2 5 [(''ID'', [''x''])]\<lparr>fid := ''x''\<rparr>))"
    by code_simp
  then show ?thesis by (rule map_sum_Inl_D)
qed

text \<open>
  Claim C6 says that an update with the empty sequence raises nothing in either driver,
  verbose mode included. In verbose mode the GTF driver formats the loop variable after
  the loop; with no record it was never bound, and the update stops with
  \<open>UnboundLocalError\<close>, whatever the store and the policy are.
\<close>

theorem gtf_verbose_empty_update_raises:
  "gtf_update (gtf_config m True) it [] st = Inl (UnboundLocalError ''i'')"
  by (simp add: gtf_update_def gtf_populate_from_lines_def gtf_config_def)

section \<open>The ids of \<open>features\<close> stay unique\<close>

lemma sql_insert_distinct:
  "sql_insert f rows = Some rows' \<Longrightarrow> distinct (map fid rows) \<Longrightarrow> distinct (map fid rows')"
  by (auto simp: sql_insert_def split: if_splits)

lemma sql_update_attributes_ids [simp]:
  "map fid (sql_update_attributes a i rows) = map fid rows"
  by (induction rows) (auto simp: sql_update_attributes_def)

lemma do_merge_tables:
  "do_merge cfg st it f = Inr (fixed, f', st') \<Longrightarrow>
     features st' = features st \<and> relations st' = relations st"
  by (auto simp: do_merge_def Let_def split: merge_strategy.splits option.splits if_splits prod.splits)

lemma insert_feature_distinct:
  assumes "insert_feature cfg st it f = Inr (f', st')" and "distinct (map fid (features st))"
  shows "distinct (map fid (features st'))"
proof (cases "sql_insert f (features st)")
  case (Some rows)
  with assms show ?thesis
    by (auto simp: insert_feature_def dest: sql_insert_distinct)
next
  case None
  with assms obtain fixed st1 where dm: "do_merge cfg st it f = Inr (fixed, f', st1)"
    by (auto simp: insert_feature_def split: sum.splits prod.splits if_splits option.splits)
  then have eq: "features st1 = features st"
    using do_merge_tables by blast
  from assms None dm eq show ?thesis
    by (auto simp: insert_feature_def split: if_splits option.splits dest: sql_insert_distinct)
qed

lemma gff_record_distinct:
  assumes "gff_record cfg st it = Inr st'" and "distinct (map fid (features st))"
  shows "distinct (map fid (features st'))"
proof -
  from assms(1) obtain f st1 f' st2 where
    a: "assign_id cfg st (snd it) = Inr (f, st1)" and
    i: "insert_feature cfg st1 (fst it, f) f = Inr (f', st2)" and
    e: "features st' = features st2"
    by (auto simp: gff_record_def split: sum.splits prod.splits)
  from a assms(2) have "distinct (map fid (features st1))"
    using assign_id_tables by fastforce
  with i e show ?thesis
    using insert_feature_distinct by fastforce
qed

lemma gff_loop_distinct:
  "gff_loop cfg its st = Inr st' \<Longrightarrow> distinct (map fid (features st)) \<Longrightarrow>
     distinct (map fid (features st'))"
proof (induction its arbitrary: st)
  case Nil
  then show ?case by simp
next
  case (Cons it its)
  then show ?case
    by (auto split: sum.splits dest: gff_record_distinct)
qed

lemma gff_update_relations_features [simp]:
  "features (gff_update_relations st) = features st"
  by (simp add: gff_update_relations_def Let_def)

lemma gtf_record_distinct:
  assumes "gtf_record cfg st it = Inr st'" and "distinct (map fid (features st))"
  shows "distinct (map fid (features st'))"
proof -
  from assms(1) obtain f st1 f' st2 where
    a: "assign_id cfg st (snd it) = Inr (f, st1)" and
    i: "insert_feature cfg st1 (fst it, f) f = Inr (f', st2)" and
    e: "features st' = features st2"
    by (auto simp: gtf_record_def split: sum.splits prod.splits)
  from a assms(2) have "distinct (map fid (features st1))"
    using assign_id_tables by fastforce
  with i e show ?thesis
    using insert_feature_distinct by fastforce
qed

lemma gtf_loop_distinct:
  "gtf_loop cfg its st = Inr st' \<Longrightarrow> distinct (map fid (features st)) \<Longrightarrow>
     distinct (map fid (features st'))"
proof (induction its arbitrary: st)
  case Nil
  then show ?case by simp
next
  case (Cons it its)
  then show ?case
    by (auto split: sum.splits dest: gtf_record_distinct)
qed

lemma insert_derived_distinct:
  assumes "insert_derived cfg it st d = Inr st'" and "distinct (map fid (features st))"
  shows "distinct (map fid (features st'))"
proof -
  from assms(1) obtain f st1 where
    a: "assign_id cfg st d = Inr (f, st1)"
    by (auto simp: insert_derived_def split: sum.splits prod.splits)
  from a assms(2) have d1: "distinct (map fid (features st1))"
    using assign_id_tables by fastforce
  show ?thesis
  proof (cases "sql_insert f (features st1)")
    case (Some rows)
    with assms(1) a d1 show ?thesis
      by (auto simp: insert_derived_def dest: sql_insert_distinct)
  next
    case None
    with assms(1) a obtain fixed f' st2 x where
      dm: "do_merge cfg st1 it f = Inr (fixed, f', st2)" and
      fx: "fixed = Some x" and
      e: "features st' = sql_update_attributes (attributes x) (fid x) (features st2)"
      by (auto simp: insert_derived_def split: sum.splits prod.splits option.splits)
    from dm have "features st2 = features st1"
      using do_merge_tables by blast
    with e d1 show ?thesis by simp
  qed
qed

lemma insert_all_derived_distinct:
  "insert_all_derived cfg it ds st = Inr st' \<Longrightarrow> distinct (map fid (features st)) \<Longrightarrow>
     distinct (map fid (features st'))"
proof (induction ds arbitrary: st)
  case Nil
  then show ?case by simp
next
  case (Cons d ds)
  then show ?case
    by (auto split: sum.splits dest: insert_derived_distinct)
qed

lemma gff_update_distinct:
  "gff_update cfg lines st = Inr st' \<Longrightarrow> distinct (map fid (features st)) \<Longrightarrow>
     distinct (map fid (features st'))"
  by (auto simp: gff_update_def gff_populate_from_lines_def split: sum.splits
      dest: gff_loop_distinct)

lemma gtf_update_distinct:
  "gtf_update cfg it lines st = Inr st' \<Longrightarrow> distinct (map fid (features st)) \<Longrightarrow>
     distinct (map fid (features st'))"
  by (auto simp: gtf_update_def gtf_populate_from_lines_def gtf_update_relations_def
      split: sum.splits if_splits dest: gtf_loop_distinct insert_all_derived_distinct)

text \<open>
  Claim C8. Whatever the input and the policy are, an ingestion that returns leaves every
  id at most once in \<open>features\<close>: a creation on new tables, and an update of a store
  whose ids were unique, in both drivers. Every row enters through an \<open>INSERT\<close>, which
  the primary key refuses for an id that is present: the second \<open>INSERT\<close> of
  \<open>create_unique\<close> and the insertion of the derived GTF records included.
\<close>

theorem feature_ids_unique:
  "(gff_create cfg lines = Inr st \<longrightarrow> distinct (map fid (features st))) \<and>
   (gtf_create cfg it lines = Inr st \<longrightarrow> distinct (map fid (features st))) \<and>
   (distinct (map fid (features st0)) \<and> gff_update cfg lines st0 = Inr st
      \<longrightarrow> distinct (map fid (features st))) \<and>
   (distinct (map fid (features st0)) \<and> gtf_update cfg it lines st0 = Inr st
      \<longrightarrow> distinct (map fid (features st)))"
proof -
  have "distinct (map fid (features init_tables))"
    by (simp add: init_tables_def)
  then show ?thesis
    unfolding gff_create_def gtf_create_def
    using gff_update_distinct gtf_update_distinct by blast
qed

theorem feature_ids_unique_witness:
  "(\<exists>st. gff_create (gff_config CreateUnique) gff_two_starts = Inr st \<and>
      map fid (features st) = [''x'', ''x_1''] \<and> distinct (map fid (features st))) \<and>
   (\<exists>st. gtf_create (gtf_config Merge False) (0, second_x) [gtf_gene_and_exon ! 1] = Inr st \<and>
      map fid (features st) = [''exon_1'', ''T1'', ''G1''] \<and> distinct (map fid (features st))) \<and>
   (\<exists>st. distinct (map fid (features store_x)) \<and>
      gff_update (gff_config CreateUnique) [(1, second_x)] store_x = Inr st \<and>
      map fid (features st) = [''x'', ''x_1''] \<and> distinct (map fid (features st)))"
proof -
  have "map_sum id (\<lambda>st. map fid (features st))
          (gff_create (gff_config CreateUnique) gff_two_starts) = Inr [''x'', ''x_1'']"
    by code_simp
  then obtain s1 where s1: "gff_create (gff_config CreateUnique) gff_two_starts = Inr s1"
      "map fid (features s1) = [''x'', ''x_1'']"
    by (auto dest: map_sum_Inr_D)
  have "map_sum id (\<lambda>st. map fid (features st))
          (gtf_create (gtf_config Merge False) (0, second_x) [gtf_gene_and_exon ! 1])
        = Inr [''exon_1'', ''T1'', ''G1'']"
    by code_simp
  then obtain s2 where s2:
      "gtf_create (gtf_config Merge False) (0, second_x) [gtf_gene_and_exon ! 1] = Inr s2"
      "map fid (features s2) = [''exon_1'', ''T1'', ''G1'']"
    by (auto dest: map_sum_Inr_D)
  have d0: "distinct (map fid (features store_x))"
    by (simp add: store_x_def)
  have "map_sum id (\<lambda>st. map fid (features st))
          (gff_update (gff_config CreateUnique) [(1, second_x)] store_x) = Inr [''x'', ''x_1'']"
    by code_simp
  then obtain s3 where s3: "gff_update (gff_config CreateUnique) [(1, second_x)] store_x = Inr s3"
      "map fid (features s3) = [''x'', ''x_1'']"
    by (auto dest: map_sum_Inr_D)
  from s1(1) have "distinct (map fid (features s1))"
    using feature_ids_unique by blast
  moreover from s2(1) have "distinct (map fid (features s2))"
    using feature_ids_unique by blast
  moreover from d0 s3(1) have "distinct (map fid (features s3))"
    using feature_ids_unique by blast
  ultimately show ?thesis
    using s1 s2 s3 d0 by simp
qed

section \<open>Merging the attributes of a duplicate\<close>

lemma list_of_set_set [simp]: "set (list_of_set (set xs \<union> set ys)) = set xs \<union> set ys"
  by (simp add: list_of_set_def)

lemma list_of_set_distinct [simp]: "distinct (list_of_set s)"
  by (simp add: list_of_set_def)

lemma dict_get_update:
  "dict_get (AList.update k v a) k' = (if k' = k then v else dict_get a k')"
  by (simp add: dict_get_def update_conv')

lemma merge_attributes_get:
  "distinct (map fst new) \<Longrightarrow>
   dict_get (merge_attributes old new) k =
     (case map_of new k of
        None \<Rightarrow> dict_get old k
      | Some v \<Rightarrow> list_of_set (set (dict_get old k) \<union> set v))"
  unfolding merge_attributes_def
proof (induction new arbitrary: old)
  case Nil
  then show ?case by simp
next
  case (Cons kv new)
  obtain k1 v1 where kv: "kv = (k1, v1)" by (cases kv)
  from Cons.prems kv have notin: "map_of new k1 = None"
    by (simp add: map_of_eq_None_iff)
  from Cons.prems have d: "distinct (map fst new)" by simp
  show ?case
    using Cons.IH [OF d, of "AList.update k1 (list_of_set (set (dict_get old k1) \<union> set v1)) old"]
      notin kv
    by (auto simp: dict_get_update split: option.splits)
qed

lemma get_feature_update:
  "get_feature (sql_update_attributes a i rows) i
     = map_option (\<lambda>r. r\<lparr>attributes := a\<rparr>) (get_feature rows i)"
  by (induction rows) (auto simp: get_feature_def sql_update_attributes_def)

lemma get_feature_fid: "get_feature rows i = Some e \<Longrightarrow> fid e = i \<and> e \<in> set rows"
  by (induction rows) (auto simp: get_feature_def split: if_splits)

text \<open>
  Claim C4, as amended. When the id of a record \<open>f\<close> is the id of a stored row \<open>e\<close>
  under the policy \<open>merge\<close> and the insertion returns, the row stored under that id
  afterwards differs from \<open>e\<close> in its attributes only. For a key of \<open>f\<close> its value list
  holds exactly the values of the stored list and of the list of \<open>f\<close>, each once; for any
  other key the value list is the stored one. Nothing is said about the order of a
  merged list.
\<close>

theorem merge_unions_attribute_values:
  assumes "merge_strategy cfg = Merge"
    and "get_feature (features st) (fid f) = Some e"
    and "insert_feature cfg st it f = Inr (f', st')"
    and "distinct (map fst (attributes f))"
  shows "\<exists>e'. get_feature (features st') (fid f) = Some e' \<and>
           e'\<lparr>attributes := attributes e\<rparr> = e \<and>
           (\<forall>k. if map_of (attributes f) k = None
                then dict_get (attributes e') k = dict_get (attributes e) k
                else set (dict_get (attributes e') k)
                       = set (dict_get (attributes e) k) \<union> set (dict_get (attributes f) k) \<and>
                     distinct (dict_get (attributes e') k))"
proof -
  from assms(2) have ide: "fid e = fid f" and mem: "e \<in> set (features st)"
    using get_feature_fid by blast+
  from mem have "fid e \<in> fid ` set (features st)"
    by (rule imageI)
  with ide have coll: "sql_insert f (features st) = None"
    by (simp add: sql_insert_def)
  let ?m = "merge_attributes (attributes e) (attributes f)"
  from assms(1,2,3) coll have st': "features st' = sql_update_attributes ?m (fid e) (features st)"
    by (auto simp: insert_feature_def do_merge_def split: if_splits)
  then have g: "get_feature (features st') (fid f) = Some (e\<lparr>attributes := ?m\<rparr>)"
    using assms(2) ide by (simp add: get_feature_update)
  have "if map_of (attributes f) k = None
          then dict_get ?m k = dict_get (attributes e) k
          else set (dict_get ?m k)
                 = set (dict_get (attributes e) k) \<union> set (dict_get (attributes f) k) \<and>
               distinct (dict_get ?m k)" for k
  proof (cases "map_of (attributes f) k")
    case None
    then show ?thesis
      by (simp add: merge_attributes_get [OF assms(4)])
  next
    case (Some v)
    then have "dict_get (attributes f) k = v"
      by (simp add: dict_get_def)
    with Some show ?thesis
      by (simp add: merge_attributes_get [OF assms(4)])
  qed
  with g show ?thesis by simp
qed


theorem merge_unions_attribute_values_witness:
  "merge_strategy (gff_config Merge) = Merge \<and>
   get_feature (features store_note) (fid (second_note [''a'', ''c''])) = Some (second_note [''b'', ''a'']) \<and>
   distinct (map fst (attributes (second_note [''a'', ''c'']))) \<and>
   (\<exists>f' st' e'. insert_feature (gff_config Merge) store_note (1, second_note [''a'', ''c''])
                     (second_note [''a'', ''c'']) = Inr (f', st') \<and>
      get_feature (features st') ''x'' = Some e' \<and>
      set (dict_get (attributes e') ''Note'') = {''a'', ''b'', ''c''} \<and>
      distinct (dict_get (attributes e') ''Note'') \<and>
      dict_get (attributes e') ''ID'' = [''x''])"
proof -
  let ?f = "second_note [''a'', ''c'']"
  have h1: "merge_strategy (gff_config Merge) = Merge"
    by (simp add: gff_config_def)
  have h2: "get_feature (features store_note) (fid ?f) = Some (second_note [''b'', ''a''])"
    by (simp add: store_note_def second_note_def get_feature_def)
  have h4: "distinct (map fst (attributes ?f))"
    by (simp add: second_note_def example_feature_def)
  have "map_sum id (\<lambda>p. ()) (insert_feature (gff_config Merge) store_note (1, ?f) ?f) = Inr ()"
    by code_simp
  then obtain f' st' where h3: "insert_feature (gff_config Merge) store_note (1, ?f) ?f = Inr (f', st')"
    by (cases "insert_feature (gff_config Merge) store_note (1, ?f) ?f") auto
  from merge_unions_attribute_values [OF h1 h2 h3 h4]
  obtain e' where e': "get_feature (features st') (fid ?f) = Some e'"
    and un: "\<And>k. if map_of (attributes ?f) k = None
                then dict_get (attributes e') k = dict_get (attributes (second_note [''b'', ''a''])) k
                else set (dict_get (attributes e') k)
                       = set (dict_get (attributes (second_note [''b'', ''a''])) k) \<union> set (dict_get (attributes ?f) k) \<and>
                     distinct (dict_get (attributes e') k)"
    by blast
  have fx: "fid ?f = ''x''"
    by (simp add: second_note_def)
  have k1: "map_of (attributes ?f) ''Note'' = Some [''a'', ''c'']"
    and k2: "map_of (attributes ?f) ''ID'' = Some [''x'']"
    by (simp_all add: second_note_def example_feature_def)
  have g1: "dict_get (attributes (second_note [''b'', ''a''])) ''Note'' = [''b'', ''a'']"
    and g2: "dict_get (attributes ?f) ''Note'' = [''a'', ''c'']"
    and g3: "dict_get (attributes (second_note [''b'', ''a''])) ''ID'' = [''x'']"
    and g4: "dict_get (attributes ?f) ''ID'' = [''x'']"
    by (simp_all add: second_note_def example_feature_def dict_get_def)
  from un [of "''Note''"] k1 g1 g2
  have n: "set (dict_get (attributes e') ''Note'') = {''a'', ''b'', ''c''}"
    and d: "distinct (dict_get (attributes e') ''Note'')"
    by auto
  from un [of "''ID''"] k2 g3 g4
  have s: "set (dict_get (attributes e') ''ID'') = {''x''}"
    and ds: "distinct (dict_get (attributes e') ''ID'')"
    by auto
  have i: "dict_get (attributes e') ''ID'' = [''x'']"
  proof (cases "dict_get (attributes e') ''ID''")
    case Nil
    with s show ?thesis by simp
  next
    case (Cons y ys)
    with s ds have "y = ''x''" and "set ys \<subseteq> {''x''}" and "y \<notin> set ys"
      by auto
    then have "ys = []"
      by (cases ys) auto
    with Cons \<open>y = ''x''\<close> show ?thesis by simp
  qed
  from e' fx have e'': "get_feature (features st') ''x'' = Some e'"
    by simp
  have "\<exists>f' st' e'. insert_feature (gff_config Merge) store_note (1, ?f) ?f = Inr (f', st') \<and>
      get_feature (features st') ''x'' = Some e' \<and>
      set (dict_get (attributes e') ''Note'') = {''a'', ''b'', ''c''} \<and>
      distinct (dict_get (attributes e') ''Note'') \<and>
      dict_get (attributes e') ''ID'' = [''x'']"
    using h3 e'' n d i by blast
  with h1 h2 h4 show ?thesis
    by blast
qed

text \<open>
  Claim C4 as stated asks for the stored values first, in their stored order. The stored
  list \<open>b, a\<close> merged with the new list \<open>a\<close> becomes \<open>a, b\<close>: the source builds the
  merged list from a set.
\<close>

theorem merge_does_not_keep_stored_order:
  "dict_get (attributes (second_note [''b'', ''a''])) ''Note'' = [''b'', ''a''] \<and>
   get_feature (features store_note) ''x'' = Some (second_note [''b'', ''a'']) \<and>
   (\<exists>f' st' e'. insert_feature (gff_config Merge) store_note (1, second_note [''a''])
                     (second_note [''a'']) = Inr (f', st') \<and>
      get_feature (features st') ''x'' = Some e' \<and>
      dict_get (attributes e') ''Note'' = [''a'', ''b''] \<and>
      dict_get (attributes e') ''Note'' \<noteq> existing_first_new_second [''b'', ''a''] [''a''])"
proof -
  let ?f = "second_note [''a'']"
  have "map_sum id (\<lambda>p. map_option (\<lambda>e. dict_get (attributes e) ''Note'')
                        (get_feature (features (snd p)) ''x''))
          (insert_feature (gff_config Merge) store_note (1, ?f) ?f) = Inr (Some [''a'', ''b''])"
    by code_simp
  then obtain f' st' e' where "insert_feature (gff_config Merge) store_note (1, ?f) ?f = Inr (f', st')"
      "get_feature (features st') ''x'' = Some e'" "dict_get (attributes e') ''Note'' = [''a'', ''b'']"
    by (auto dest!: map_sum_Inr_D)
  moreover have "existing_first_new_second [''b'', ''a''] [''a''] = [''b'', ''a'']"
    by (simp add: existing_first_new_second_def)
  moreover have "dict_get (attributes (second_note [''b'', ''a''])) ''Note'' = [''b'', ''a'']"
    by (simp add: second_note_def example_feature_def dict_get_def)
  moreover have "get_feature (features store_note) ''x'' = Some (second_note [''b'', ''a''])"
    by (simp add: store_note_def second_note_def get_feature_def)
  ultimately show ?thesis by auto
qed

section \<open>The id for a sequence of candidate keys\<close>


lemma field_value_attributes [simp]:
  "field_value (f\<lparr>attributes := a\<rparr>) n = field_value f n"
  by (simp add: field_value_def)





lemma sentinel_columns_attributes [simp]:
  "sentinel_columns (f\<lparr>attributes := a\<rparr>) = sentinel_columns f"
  by (simp add: sentinel_columns_def)












text \<open>
  Claim C7 as it is worded fails: the id is the first value read, not the first value
  that is not empty. An attribute \<open>ID\<close> whose one value is the empty text makes the
  empty text the id, and \<open>:start:\<close> on a record without a start makes \<open>None\<close> the id,
  although in both cases a later candidate reads a value that is not empty, which is
  the id the claim gives.
\<close>

theorem first_value_read_is_the_id_even_if_empty:
  "map_sum id fst
     (id_handler (\<lambda>f name. None) (Keys (map Key [''ID'', ''Name'']))
        (example_feature ''gene'' 1 5 [(''ID'', [[]]), (''Name'', [''n1''])]) (\<lambda>k. 0))
     = Inr (Text []) \<and>
   claimed_id [''ID'', ''Name'']
     (example_feature ''gene'' 1 5 [(''ID'', [[]]), (''Name'', [''n1''])]) (\<lambda>k. 0)
     = Text ''n1'' \<and>
   map_sum id fst
     (id_handler (\<lambda>f name. None) (Keys (map Key ['':start:'', ''Name'']))
        ((example_feature ''gene'' 1 5 [(''Name'', [''n1''])])\<lparr>fstart := None\<rparr>) (\<lambda>k. 0))
     = Inr (Number None) \<and>
   claimed_id ['':start:'', ''Name'']
     ((example_feature ''gene'' 1 5 [(''Name'', [''n1''])])\<lparr>fstart := None\<rparr>) (\<lambda>k. 0)
     = Text ''n1''"
  by (simp add: id_handler_def is_sentinel_def getattr_def field_value_def dict_get_def
      claimed_id_def non_empty_def yielded_def map_filter_simps reads_def sentinel_columns_def
      example_feature_def)

section \<open>The order in which the writer emits a gene\<close>

lemma build_distinct:
  "distinct (map fst d) \<Longrightarrow>
   distinct (map fst (foldl (\<lambda>d c. if P c then AList.update (k c) (v c) d else d) d cs))"
  by (induction cs arbitrary: d) (auto simp: distinct_update)

lemma build_keys:
  "fst ` set (foldl (\<lambda>d c. if P c then AList.update (k c) (v c) d else d) d cs)
     = fst ` set d \<union> k ` {c \<in> set cs. P c}"
proof (induction cs arbitrary: d)
  case Nil
  then show ?case by simp
next
  case (Cons c cs)
  show ?case
    unfolding foldl_Cons Cons.IH
    by (auto simp: dom_update)
qed

lemma build_map_of:
  "map_of (foldl (\<lambda>d c. if P c then AList.update (k c) (v c) d else d) d cs) i = Some s \<Longrightarrow>
   map_of d i = Some s \<or> (\<exists>c \<in> set cs. P c \<and> k c = i \<and> v c = s)"
proof (induction cs arbitrary: d)
  case Nil
  then show ?case by simp
next
  case (Cons c cs)
  from Cons.IH [OF Cons.prems [unfolded foldl_Cons]]
  show ?case
    by (auto simp: update_conv' split: if_splits)
qed

lemma exon_starts_props:
  "distinct (map fst (exon_starts cs))"
  "fst ` set (exon_starts cs) = fid ` {c \<in> set cs. featuretype c = ''exon''}"
  "list_all (\<lambda>e. \<exists>c \<in> set cs. featuretype c = ''exon'' \<and> fid c = fst e \<and> fstart c = snd e)
     (exon_starts cs)"
proof -
  show d: "distinct (map fst (exon_starts cs))"
    unfolding exon_starts_def by (rule build_distinct) simp
  show "fst ` set (exon_starts cs) = fid ` {c \<in> set cs. featuretype c = ''exon''}"
    unfolding exon_starts_def by (simp add: build_keys)
  show "list_all (\<lambda>e. \<exists>c \<in> set cs. featuretype c = ''exon'' \<and> fid c = fst e \<and> fstart c = snd e)
     (exon_starts cs)"
    unfolding list_all_iff
  proof
    fix e assume "e \<in> set (exon_starts cs)"
    with d have "map_of (exon_starts cs) (fst e) = Some (snd e)"
      by simp
    then show "\<exists>c \<in> set cs. featuretype c = ''exon'' \<and> fid c = fst e \<and> fstart c = snd e"
      unfolding exon_starts_def using build_map_of [where d = "[]"] by fastforce
  qed
qed

lemma write_exons_parts:
  "write_exons db es = Inr out \<Longrightarrow> \<exists>parts. list_all2 (is_exon_part db) es parts \<and> out = concat parts"
proof (induction es arbitrary: out)
  case Nil
  then show ?case by simp
next
  case (Cons e es)
  from Cons.prems obtain r rest where
    r: "getitem db (fst e) = Some r" and rest: "write_exons db es = Inr rest" and
    out: "out = r # write_exon_children db (fst e) @ rest"
    by (auto split: option.splits sum.splits)
  from Cons.IH [OF rest] obtain parts where
    p: "list_all2 (is_exon_part db) es parts" "rest = concat parts"
    by blast
  have "is_exon_part db e (r # children db (fst e) None None)"
    using r by (simp add: is_exon_part_def)
  with p out have "list_all2 (is_exon_part db) (e # es) ((r # children db (fst e) None None) # parts) \<and>
      out = concat ((r # children db (fst e) None None) # parts)"
    by (simp add: write_exon_children_def)
  then show ?case by blast
qed

lemma write_mRNA_children_section:
  assumes "getitem db m = Some mRNA_rec" and "write_mRNA_children db m = Inr cs"
  shows "is_mRNA_section db m (mRNA_rec # cs)"
proof -
  let ?ch = "children db m None None"
  let ?es = "py_sorted snd (exon_starts ?ch)"
  from assms(2) obtain out where w: "write_exons db ?es = Inr out"
    and cs: "cs = out @ filter (\<lambda>c. featuretype c \<noteq> ''exon'') ?ch"
    by (auto simp: write_mRNA_children_def Let_def split: sum.splits)
  from write_exons_parts [OF w] obtain parts where
    p: "list_all2 (is_exon_part db) ?es parts" "out = concat parts"
    by blast
  have s: "set ?es = set (exon_starts ?ch)"
    by (simp add: py_sorted_def)
  have 1: "fst ` set ?es = fid ` {c \<in> set ?ch. featuretype c = ''exon''}"
    using exon_starts_props(2) [of ?ch] s by simp
  have 2: "distinct (map fst ?es)"
  proof -
    have "distinct (map fst (exon_starts ?ch))" by (rule exon_starts_props(1))
    then show ?thesis
      unfolding py_sorted_def
      by (metis distinct_map distinct_sort set_sort inj_on_cong)
  qed
  have 3: "list_all (\<lambda>e. \<exists>c \<in> set ?ch. featuretype c = ''exon'' \<and> fid c = fst e \<and> fstart c = snd e) ?es"
    using exon_starts_props(3) [of ?ch] s by (simp add: list_all_iff)
  have 4: "sorted (map snd ?es)"
    by (simp add: py_sorted_def)
  show ?thesis
    unfolding is_mRNA_section_def
    using assms(1) 1 2 3 4 p cs by blast
qed

lemma write_mRNAs_sections:
  "write_mRNAs db ms = Inr out \<Longrightarrow>
     \<exists>sections. list_all2 (is_mRNA_section db) (map fst ms) sections \<and> out = concat sections"
proof (induction ms arbitrary: out)
  case Nil
  then show ?case by simp
next
  case (Cons m ms)
  from Cons.prems obtain r cs rest where
    r: "getitem db (fst m) = Some r" and c: "write_mRNA_children db (fst m) = Inr cs" and
    rest: "write_mRNAs db ms = Inr rest" and out: "out = r # cs @ rest"
    by (auto split: option.splits sum.splits)
  from Cons.IH [OF rest] obtain sections where
    p: "list_all2 (is_mRNA_section db) (map fst ms) sections" "rest = concat sections"
    by blast
  from write_mRNA_children_section [OF r c] p out
  have "list_all2 (is_mRNA_section db) (map fst (m # ms)) ((r # cs) # sections) \<and>
      out = concat ((r # cs) # sections)"
    by simp
  then show ?case by blast
qed

lemma mRNA_lens_props:
  "distinct (map fst (mRNA_lens db g))"
  "fst ` set (mRNA_lens db g) = fid ` set (children db g None (Some ''mRNA''))"
  "list_all (\<lambda>e. snd e = exon_total db (fst e)) (mRNA_lens db g)"
proof -
  let ?k = "fid" and ?v = "\<lambda>m. sum_list (map (feature_len db) (children db (fid m) None (Some ''exon'')))"
  have eq: "mRNA_lens db g = foldl (\<lambda>d c. if True then AList.update (?k c) (?v c) d else d) []
      (children db g None (Some ''mRNA''))"
    by (simp add: mRNA_lens_def)
  show d: "distinct (map fst (mRNA_lens db g))"
    unfolding eq by (rule build_distinct) simp
  show "fst ` set (mRNA_lens db g) = fid ` set (children db g None (Some ''mRNA''))"
    unfolding eq build_keys by simp
  show "list_all (\<lambda>e. snd e = exon_total db (fst e)) (mRNA_lens db g)"
    unfolding list_all_iff
  proof
    fix e assume "e \<in> set (mRNA_lens db g)"
    with d have "map_of (mRNA_lens db g) (fst e) = Some (snd e)"
      by simp
    then show "snd e = exon_total db (fst e)"
      unfolding eq using build_map_of [where d = "[]" and P = "\<lambda>_. True" and k = ?k and v = ?v]
      by (fastforce simp: exon_total_def)
  qed
qed

text \<open>
  Claim C9. What \<open>write_gene_recs\<close> emits for a gene is in the canonical order: the gene
  record; then a section for every mRNA below the gene, the sections in decreasing order
  of the summed lengths of the exon children of their mRNA; and last the level-1
  children of the gene that are no mRNA. The section of an mRNA is its record, then its
  exon children in ascending order of start, each followed by its own children, then the
  children of the mRNA that are no exon.
\<close>

theorem write_gene_recs_canonical:
  assumes "write_gene_recs db gene_id = Inr out"
  shows "is_canonical db gene_id out"
proof -
  let ?items = "py_sorted_reverse snd (mRNA_lens db gene_id)"
  let ?tail = "filter (\<lambda>c. featuretype c \<noteq> ''mRNA'') (children db gene_id (Some 1) None)"
  from assms obtain g body where g: "getitem db gene_id = Some g"
    and w: "write_mRNAs db ?items = Inr body" and out: "out = g # body @ ?tail"
    by (auto simp: write_gene_recs_def split: option.splits sum.splits)
  from write_mRNAs_sections [OF w] obtain sections where
    s: "list_all2 (is_mRNA_section db) (map fst ?items) sections" "body = concat sections"
    by blast
  have set_items: "set ?items = set (mRNA_lens db gene_id)"
    by (simp add: py_sorted_reverse_def)
  have 1: "set (map fst ?items) = fid ` set (children db gene_id None (Some ''mRNA''))"
    using mRNA_lens_props(2) [of db gene_id] set_items by simp
  have 2: "distinct (map fst ?items)"
  proof -
    have "distinct (map fst (mRNA_lens db gene_id))" by (rule mRNA_lens_props(1))
    then have "distinct (map fst (sort_key snd (rev (mRNA_lens db gene_id))))"
      by (metis distinct_map distinct_sort set_sort inj_on_cong distinct_rev set_rev)
    then show ?thesis
      by (simp add: py_sorted_reverse_def rev_map [symmetric])
  qed
  have tot: "map (exon_total db) (map fst ?items) = map snd ?items"
    using mRNA_lens_props(3) [of db gene_id] set_items by (auto simp: list_all_iff)
  have 3: "sorted (rev (map (exon_total db) (map fst ?items)))"
    unfolding tot by (simp add: py_sorted_reverse_def rev_map [symmetric])
  show ?thesis
    unfolding is_canonical_def
    using g 1 2 3 s out by blast
qed

theorem write_gene_recs_canonical_witness:
  "write_gene_recs example_db ''g''
     = Inr [example_rec ''g'' ''gene'' 1 100,
            example_rec ''m2'' ''mRNA'' 10 49,
            example_rec ''e3'' ''exon'' 10 19,
            example_rec ''e2'' ''exon'' 30 49,
            example_rec ''c1'' ''CDS'' 12 40,
            example_rec ''m1'' ''mRNA'' 50 59,
            example_rec ''e1'' ''exon'' 50 59,
            example_rec ''p1'' ''promoter'' 1 9] \<and>
   is_canonical example_db ''g''
     [example_rec ''g'' ''gene'' 1 100,
      example_rec ''m2'' ''mRNA'' 10 49,
      example_rec ''e3'' ''exon'' 10 19,
      example_rec ''e2'' ''exon'' 30 49,
      example_rec ''c1'' ''CDS'' 12 40,
      example_rec ''m1'' ''mRNA'' 50 59,
      example_rec ''e1'' ''exon'' 50 59,
      example_rec ''p1'' ''promoter'' 1 9]"
proof -
  have run: "write_gene_recs example_db ''g''
     = Inr [example_rec ''g'' ''gene'' 1 100,
            example_rec ''m2'' ''mRNA'' 10 49,
            example_rec ''e3'' ''exon'' 10 19,
            example_rec ''e2'' ''exon'' 30 49,
            example_rec ''c1'' ''CDS'' 12 40,
            example_rec ''m1'' ''mRNA'' 50 59,
            example_rec ''e1'' ''exon'' 50 59,
            example_rec ''p1'' ''promoter'' 1 9]"
    by code_simp
  from write_gene_recs_canonical [OF run] run show ?thesis
    by (rule conjI [rotated])
qed

section \<open>The closure of the GFF driver on new tables\<close>

lemma sql_update_attributes_id_set [simp]:
  "fid ` set (sql_update_attributes a i rows) = fid ` set rows"
  using sql_update_attributes_ids [of a i rows] by (metis set_map)

lemma insert_feature_mem:
  assumes "insert_feature cfg st it f = Inr (f', st')"
  shows "fid f' \<in> set (map fid (features st')) \<and> set (map fid (features st)) \<subseteq> set (map fid (features st'))
         \<and> relations st' = relations st"
proof (cases "sql_insert f (features st)")
  case (Some rows)
  with assms show ?thesis
    by (auto simp: insert_feature_def sql_insert_def split: if_splits)
next
  case None
  then have coll: "fid f \<in> set (map fid (features st))"
    by (auto simp: sql_insert_def split: if_splits)
  from assms None obtain fixed st1 where dm: "do_merge cfg st it f = Inr (fixed, f', st1)"
    by (auto simp: insert_feature_def split: sum.splits prod.splits if_splits option.splits)
  then have eq: "features st1 = features st" "relations st1 = relations st"
    using do_merge_tables by blast+
  have same: "merge_strategy cfg \<noteq> CreateUnique \<Longrightarrow> f' = f"
    using dm by (auto simp: do_merge_def split: merge_strategy.splits option.splits if_splits)
  from assms None dm eq coll same show ?thesis
    by (auto simp: insert_feature_def sql_insert_def split: if_splits option.splits)
qed

lemma gff_record_relations:
  assumes "gff_record cfg st it = Inr st'"
  shows "\<exists>i. i \<in> set (map fid (features st')) \<and>
           set (relations st) \<subseteq> set (relations st') \<and>
           set (relations st') \<subseteq> set (relations st) \<union> {(p, i, 1) | p. True} \<and>
           set (map fid (features st)) \<subseteq> set (map fid (features st'))"
proof -
  from assms obtain f st1 f' st2 where
    a: "assign_id cfg st (snd it) = Inr (f, st1)" and
    i: "insert_feature cfg st1 (fst it, f) f = Inr (f', st2)" and
    e: "st' = st2\<lparr>relations := foldl (\<lambda>rel p. insert_or_ignore (p, fid f', 1) rel) (relations st2)
                        (dict_get (attributes f') ''Parent'')\<rparr>"
    by (auto simp: gff_record_def split: sum.splits prod.splits)
  from a have t: "features st1 = features st" "relations st1 = relations st"
    using assign_id_tables by blast+
  from insert_feature_mem [OF i] t e
  have "fid f' \<in> set (map fid (features st')) \<and>
           set (relations st) \<subseteq> set (relations st') \<and>
           set (relations st') \<subseteq> set (relations st) \<union> {(p, fid f', 1) | p. True} \<and>
           set (map fid (features st)) \<subseteq> set (map fid (features st'))"
    by (auto simp: set_foldl_insert_or_ignore)
  then show ?thesis by blast
qed

lemma gff_record_edges_ok:
  assumes "gff_record cfg st it = Inr st'" and "edges_ok st"
  shows "edges_ok st'"
proof -
  from gff_record_relations [OF assms(1)] obtain i where
    i: "i \<in> set (map fid (features st'))" and
    sub: "set (relations st') \<subseteq> set (relations st) \<union> {(p, i, 1) | p. True}" and
    ids: "set (map fid (features st)) \<subseteq> set (map fid (features st'))"
    by blast
  show ?thesis
    unfolding edges_ok_def list_all_iff
  proof
    fix r assume "r \<in> set (relations st')"
    with sub have "r \<in> set (relations st) \<or> (\<exists>p. r = (p, i, 1))" by auto
    then show "level r = 1 \<and> child r \<in> set (map fid (features st'))"
    proof
      assume "r \<in> set (relations st)"
      with assms(2) ids show ?thesis
        by (auto simp: edges_ok_def list_all_iff)
    next
      assume "\<exists>p. r = (p, i, 1)"
      with i show ?thesis
        by (auto simp: level_def child_def)
    qed
  qed
qed

lemma gff_loop_edges_ok:
  "gff_loop cfg its st = Inr st' \<Longrightarrow> edges_ok st \<Longrightarrow> edges_ok st'"
proof (induction its arbitrary: st)
  case Nil
  then show ?case by simp
next
  case (Cons it its)
  then show ?case
    by (auto split: sum.splits dest: gff_record_edges_ok)
qed

lemma set_foldl_insert_pairs:
  "set (foldl (\<lambda>rel (p, c). insert_or_ignore (p, c, 2) rel) rel xs)
     = set rel \<union> (\<lambda>(p, c). (p, c, 2)) ` set xs"
  by (induction xs arbitrary: rel) (auto simp: insert_or_ignore_def)

lemma gff_update_relations_set:
  "set (relations (gff_update_relations st))
     = set (relations st) \<union>
       {(fid f, g, 2) | f g. f \<in> set (features st) \<and> g \<in> set (grandchildren (relations st) (fid f))}"
  by (force simp: gff_update_relations_def Let_def set_foldl_insert_pairs)

lemma grandchildren_iff:
  "g \<in> set (grandchildren rel p) \<longleftrightarrow>
     (\<exists>c l1 l2. (p, c, l1) \<in> set rel \<and> (c, g, l2) \<in> set rel)"
  by (force simp: grandchildren_def parent_def child_def)

text \<open>
  On the tables of a creation the first pass leaves edges of level 1 only, so the
  closure joins level-1 edges: every level-2 edge of a created store has a feature in
  between. An update runs the same closure over every row of the table, level-2 rows
  included.
\<close>

lemma gff_create_level2_has_midpoint:
  assumes "gff_create cfg lines = Inr st" and "(p, g, 2) \<in> set (relations st)"
  shows "\<exists>c. c \<in> set (map fid (features st)) \<and>
           (p, c, 1) \<in> set (relations st) \<and> (c, g, 1) \<in> set (relations st)"
proof -
  from assms(1) obtain s where loop: "gff_loop cfg lines init_tables = Inr s"
    and st: "st = gff_update_relations s"
    by (auto simp: gff_create_def gff_update_def gff_populate_from_lines_def split: sum.splits)
  have "edges_ok init_tables"
    by (simp add: edges_ok_def init_tables_def)
  with loop have ok: "edges_ok s"
    by (rule gff_loop_edges_ok)
  then have l1: "\<And>a b l. (a, b, l) \<in> set (relations s) \<Longrightarrow> l = 1 \<and> b \<in> set (map fid (features s))"
    by (auto simp: edges_ok_def list_all_iff level_def child_def)
  from assms(2) st l1 have "g \<in> set (grandchildren (relations s) p)"
    by (fastforce simp: gff_update_relations_set)
  then obtain c la lb where "(p, c, la) \<in> set (relations s)" "(c, g, lb) \<in> set (relations s)"
    unfolding grandchildren_iff by blast
  with l1 have "(p, c, 1) \<in> set (relations s)" "(c, g, 1) \<in> set (relations s)"
      "c \<in> set (map fid (features s))"
    by blast+
  with st show ?thesis
    by (auto simp: gff_update_relations_set)
qed

section \<open>A second ingest under \<open>merge\<close>\<close>

subsection \<open>Merged attributes\<close>

lemma merge_attributes_map_of:
  "distinct (map fst new) \<Longrightarrow>
   map_of (merge_attributes old new) k =
     (case map_of new k of
        None \<Rightarrow> map_of old k
      | Some v \<Rightarrow> Some (list_of_set (set (dict_get old k) \<union> set v)))"
  unfolding merge_attributes_def
proof (induction new arbitrary: old)
  case Nil
  then show ?case by simp
next
  case (Cons kv new)
  obtain k1 v1 where kv: "kv = (k1, v1)" by (cases kv)
  from Cons.prems kv have notin: "map_of new k1 = None"
    by (simp add: map_of_eq_None_iff)
  from Cons.prems have d: "distinct (map fst new)" by simp
  show ?case
    using Cons.IH [OF d, of "AList.update k1 (list_of_set (set (dict_get old k1) \<union> set v1)) old"]
      notin kv
    by (auto simp: dict_get_update update_conv' split: option.splits)
qed

lemma same_values_refl [simp]: "same_values a a"
  by (simp add: same_values_def list_all2_same)

lemma same_values_trans: "same_values a b \<Longrightarrow> same_values b c \<Longrightarrow> same_values a c"
  unfolding same_values_def
  by (erule list_all2_trans [rotated]) auto

lemma same_values_map_of:
  "same_values a b \<Longrightarrow> map_of a k = Some x \<Longrightarrow> \<exists>y. map_of b k = Some y \<and> set x = set y"
  unfolding same_values_def
  by (induction a b rule: list_all2_induct) (auto split: if_splits)

lemma same_values_keys: "same_values a b \<Longrightarrow> map fst a = map fst b"
  unfolding same_values_def
  by (induction a b rule: list_all2_induct) auto

lemma same_values_update:
  "map_of a k = Some old \<Longrightarrow> set v = set old \<Longrightarrow> same_values a (AList.update k v a)"
  by (induction a) (auto simp: same_values_def list_all2_same split: if_splits)

lemma same_values_merge_aux:
  "same_values a0 a \<Longrightarrow>
   list_all (\<lambda>kv. \<exists>old. map_of a0 (fst kv) = Some old \<and> set (snd kv) \<subseteq> set old) new \<Longrightarrow>
   same_values a0
     (foldl (\<lambda>a (k, v). AList.update k (list_of_set (set (dict_get a k) \<union> set v)) a) a new)"
proof (induction new arbitrary: a)
  case Nil
  then show ?case by simp
next
  case (Cons kv new)
  obtain k v where kv: "kv = (k, v)" by (cases kv)
  from Cons.prems(2) kv obtain old0 where o0: "map_of a0 k = Some old0" "set v \<subseteq> set old0"
    by auto
  from same_values_map_of [OF Cons.prems(1) o0(1)] obtain old where
    o: "map_of a k = Some old" "set old0 = set old"
    by blast
  let ?a' = "AList.update k (list_of_set (set (dict_get a k) \<union> set v)) a"
  have eq: "set (list_of_set (set (dict_get a k) \<union> set v)) = set old"
    using o o0(2) by (auto simp: dict_get_def)
  have "same_values a ?a'"
    by (rule same_values_update [OF o(1) eq])
  with Cons.prems(1) have "same_values a0 ?a'"
    by (rule same_values_trans)
  from Cons.IH [OF this] Cons.prems(2) kv show ?case
    by simp
qed

lemma same_values_merge:
  "list_all (\<lambda>kv. \<exists>old. map_of a (fst kv) = Some old \<and> set (snd kv) \<subseteq> set old) new \<Longrightarrow>
   same_values a (merge_attributes a new)"
  unfolding merge_attributes_def by (rule same_values_merge_aux) simp_all

lemma merge_attributes_grows:
  assumes "distinct (map fst new)" and "map_of old k = Some x"
  shows "\<exists>y. map_of (merge_attributes old new) k = Some y \<and> set x \<subseteq> set y"
  using assms
  by (cases "map_of new k") (auto simp: merge_attributes_map_of dict_get_def)

lemma merge_attributes_holds_new:
  assumes "distinct (map fst new)"
  shows "list_all (\<lambda>kv. \<exists>old. map_of (merge_attributes a new) (fst kv) = Some old \<and>
                      set (snd kv) \<subseteq> set old) new"
  unfolding list_all_iff
proof
  fix kv assume "kv \<in> set new"
  with assms have "map_of new (fst kv) = Some (snd kv)"
    by simp
  then show "\<exists>old. map_of (merge_attributes a new) (fst kv) = Some old \<and> set (snd kv) \<subseteq> set old"
    by (simp add: merge_attributes_map_of [OF assms])
qed

lemma attributes_hold_themselves:
  assumes "distinct (map fst a)"
  shows "list_all (\<lambda>kv. \<exists>old. map_of a (fst kv) = Some old \<and> set (snd kv) \<subseteq> set old) a"
  unfolding list_all_iff using assms by auto

subsection \<open>The counters only grow\<close>

lemma increment_ge:
  "increment_featuretype_autoid key ctr = (i, ctr') \<Longrightarrow> ctr k \<le> ctr' k"
  by (auto simp: increment_featuretype_autoid_def Let_def)

lemma try_keys_counters:
  "try_keys other ks f ctr = Inr (i, f', ctr') \<Longrightarrow> ctr k \<le> ctr' k"
proof (induction other ks f ctr rule: try_keys.induct)
  case (1 f ctr)
  then show ?case
    by (auto split: prod.splits dest: increment_ge)
next
  case (2 g ks f ctr)
  then show ?case
    by (auto split: option.splits if_splits prod.splits dest: increment_ge)
next
  case (3 k ks f ctr)
  then show ?case
    by (auto simp: Let_def split: if_splits sum.splits)
qed

lemma try_keys_distinct:
  "try_keys other ks f ctr = Inr (i, f', ctr') \<Longrightarrow> distinct (map fst (attributes f)) \<Longrightarrow>
     distinct (map fst (attributes f'))"
proof (induction other ks f ctr rule: try_keys.induct)
  case (1 f ctr)
  then show ?case
    by (auto split: prod.splits)
next
  case (2 g ks f ctr)
  then show ?case
    by (auto split: option.splits if_splits prod.splits)
next
  case (3 k ks f ctr)
  then show ?case
    by (auto simp: Let_def distinct_delete split: if_splits sum.splits)
qed

lemma id_handler_counters:
  "id_handler other spec f ctr = Inr (i, f', ctr') \<Longrightarrow> ctr k \<le> ctr' k"
  by (auto simp: id_handler_def simp del: try_keys.simps
      split: id_spec.splits option.splits id_val.splits prod.splits
      dest: try_keys_counters increment_ge)

lemma id_handler_distinct:
  "id_handler other spec f ctr = Inr (i, f', ctr') \<Longrightarrow> distinct (map fst (attributes f)) \<Longrightarrow>
     distinct (map fst (attributes f'))"
  by (auto simp: id_handler_def simp del: try_keys.simps
      split: id_spec.splits option.splits id_val.splits prod.splits
      dest: try_keys_distinct)

lemma assign_id_cases:
  assumes "assign_id cfg st f0 = Inr (f, st1)"
  shows "\<exists>v f1 ctr. id_handler (other_attribute cfg) (id_spec cfg) f0 (autoincrements st) = Inr (v, f1, ctr) \<and>
           bind_id v = Inr (fid f) \<and> f = f1\<lparr>fid := fid f\<rparr> \<and> st1 = st\<lparr>autoincrements := ctr\<rparr>"
  using assms by (auto simp: assign_id_def bind_id_def split: sum.splits prod.splits)

lemma assign_id_counters:
  "assign_id cfg st f0 = Inr (f, st1) \<Longrightarrow> autoincrements st k \<le> autoincrements st1 k"
  by (auto dest!: assign_id_cases dest: id_handler_counters)

lemma do_merge_counters:
  "do_merge cfg st it f = Inr (fixed, f', st') \<Longrightarrow> autoincrements st k \<le> autoincrements st' k"
  by (auto simp: do_merge_def Let_def split: merge_strategy.splits option.splits if_splits prod.splits
      dest: increment_ge)

lemma insert_feature_counters:
  "insert_feature cfg st it f = Inr (f', st') \<Longrightarrow> autoincrements st k \<le> autoincrements st' k"
  by (auto simp: insert_feature_def split: option.splits sum.splits prod.splits if_splits
      dest: do_merge_counters)

lemma gff_record_counters:
  assumes "gff_record cfg st it = Inr st'"
  shows "autoincrements st k \<le> autoincrements st' k"
proof -
  from assms obtain f st1 f' st2 where
    a: "assign_id cfg st (snd it) = Inr (f, st1)" and
    i: "insert_feature cfg st1 (fst it, f) f = Inr (f', st2)" and
    e: "autoincrements st' = autoincrements st2"
    by (auto simp: gff_record_def split: sum.splits prod.splits)
  from assign_id_counters [OF a, of k] insert_feature_counters [OF i, of k] e show ?thesis
    by simp
qed

lemma gff_loop_counters:
  "gff_loop cfg its st = Inr st' \<Longrightarrow> autoincrements st k \<le> autoincrements st' k"
proof (induction its arbitrary: st)
  case Nil
  then show ?case by simp
next
  case (Cons it its)
  from Cons.prems obtain s where s: "gff_record cfg st it = Inr s" "gff_loop cfg its s = Inr st'"
    by (auto split: sum.splits)
  from gff_record_counters [OF s(1), of k] Cons.IH [OF s(2)] show ?case
    by simp
qed

subsection \<open>One record under \<open>merge\<close>\<close>

lemma get_feature_None_iff: "get_feature rows i = None \<longleftrightarrow> i \<notin> fid ` set rows"
  by (auto simp: get_feature_def find_None_iff)

lemma get_feature_append:
  "get_feature (rows @ [f]) i =
     (case get_feature rows i of Some r \<Rightarrow> Some r | None \<Rightarrow> if fid f = i then Some f else None)"
  by (induction rows) (auto simp: get_feature_def)

lemma get_feature_update_other:
  "i \<noteq> j \<Longrightarrow> get_feature (sql_update_attributes a j rows) i = get_feature rows i"
  by (induction rows) (auto simp: get_feature_def sql_update_attributes_def)

lemma same_fields_refl [simp]: "same_fields f f"
  by (simp add: same_fields_def list_all_iff)

lemma same_fields_attributes [simp]: "same_fields (r\<lparr>attributes := a\<rparr>) f = same_fields r f"
  by (simp add: same_fields_def)

lemma insert_feature_merge_fresh:
  assumes "merge_strategy cfg = Merge" and "get_feature (features st) (fid f) = None"
  shows "insert_feature cfg st it f = Inr (f, st\<lparr>features := features st @ [f]\<rparr>)"
  using assms by (simp add: insert_feature_def sql_insert_def get_feature_None_iff)

lemma insert_feature_merge_dup:
  assumes "merge_strategy cfg = Merge" and "get_feature (features st) (fid f) = Some row"
  shows "insert_feature cfg st it f =
           (if same_fields row f
            then Inr (f, st\<lparr>features :=
                     sql_update_attributes (merge_attributes (attributes row) (attributes f))
                       (fid f) (features st)\<rparr>)
            else Inl (MergeAssertion (fid f) (fst it) (snd it)))"
proof -
  from assms(2) have ide: "fid row = fid f" and mem: "row \<in> set (features st)"
    using get_feature_fid by blast+
  from mem have "fid row \<in> fid ` set (features st)"
    by (rule imageI)
  with ide have coll: "sql_insert f (features st) = None"
    by (simp add: sql_insert_def)
  show ?thesis
    using assms coll ide
    by (simp add: insert_feature_def do_merge_def same_fields_def)
qed

lemma gff_record_unfold:
  assumes "assign_id cfg st (snd it) = Inr (f, st1)"
  shows "gff_record cfg st it =
           (case insert_feature cfg st1 (fst it, f) f of
              Inl e \<Rightarrow> Inl e
            | Inr (f', st2) \<Rightarrow>
                Inr (st2\<lparr>relations :=
                       foldl (\<lambda>rel p. insert_or_ignore (p, fid f', 1) rel) (relations st2)
                         (dict_get (attributes f') ''Parent'')\<rparr>))"
  using assms by (simp add: gff_record_def)

lemma row_absorbs_append:
  "row_absorbs rows g \<Longrightarrow> row_absorbs (rows @ [f]) g"
  by (auto simp: row_absorbs_def get_feature_append)

lemma row_absorbs_fresh:
  assumes "get_feature rows (fid f) = None" and "distinct (map fst (attributes f))"
  shows "row_absorbs (rows @ [f]) f"
  using assms attributes_hold_themselves [OF assms(2)]
  by (simp add: row_absorbs_def get_feature_append)

lemma row_absorbs_update:
  assumes "row_absorbs rows g" and "get_feature rows i = Some row"
    and "distinct (map fst new)"
  shows "row_absorbs (sql_update_attributes (merge_attributes (attributes row) new) i rows) g"
proof (cases "fid g = i")
  case False
  with assms(1) show ?thesis
    by (auto simp: row_absorbs_def get_feature_update_other)
next
  case True
  from assms(1) True assms(2) have
    sf: "same_fields row g" and
    at: "list_all (\<lambda>kv. \<exists>old. map_of (attributes row) (fst kv) = Some old \<and> set (snd kv) \<subseteq> set old)
          (attributes g)"
    by (auto simp: row_absorbs_def)
  let ?m = "merge_attributes (attributes row) new"
  have g: "get_feature (sql_update_attributes ?m i rows) (fid g) = Some (row\<lparr>attributes := ?m\<rparr>)"
    using True assms(2) by (simp add: get_feature_update)
  have "list_all (\<lambda>kv. \<exists>old. map_of ?m (fst kv) = Some old \<and> set (snd kv) \<subseteq> set old) (attributes g)"
    unfolding list_all_iff
  proof
    fix kv assume "kv \<in> set (attributes g)"
    with at obtain old where "map_of (attributes row) (fst kv) = Some old" "set (snd kv) \<subseteq> set old"
      by (auto simp: list_all_iff)
    with merge_attributes_grows [OF assms(3), of "attributes row" "fst kv" old]
    show "\<exists>old. map_of ?m (fst kv) = Some old \<and> set (snd kv) \<subseteq> set old"
      by auto
  qed
  with g sf show ?thesis
    by (simp add: row_absorbs_def)
qed

lemma row_absorbs_merged:
  assumes "get_feature rows (fid f) = Some row" and "same_fields row f"
    and "distinct (map fst (attributes f))"
  shows "row_absorbs
           (sql_update_attributes (merge_attributes (attributes row) (attributes f)) (fid f) rows) f"
  using assms merge_attributes_holds_new [OF assms(3), of "attributes row"]
  by (simp add: row_absorbs_def get_feature_update)

text \<open>The try block under merge: what it does to the table, and that it absorbs.\<close>

lemma insert_feature_merge:
  assumes "merge_strategy cfg = Merge" and "insert_feature cfg st it f = Inr (f', st')"
    and "distinct (map fst (attributes f))"
  shows "f' = f \<and> relations st' = relations st \<and> autoincrements st' = autoincrements st \<and>
         row_absorbs (features st') f \<and>
         (\<forall>g. row_absorbs (features st) g \<longrightarrow> row_absorbs (features st') g)"
proof (cases "get_feature (features st) (fid f)")
  case None
  with assms show ?thesis
    by (auto simp: insert_feature_merge_fresh row_absorbs_append row_absorbs_fresh)
next
  case (Some row)
  with assms(1,2) have sf: "same_fields row f"
    and st': "st' = st\<lparr>features :=
                     sql_update_attributes (merge_attributes (attributes row) (attributes f))
                       (fid f) (features st)\<rparr>" and ff: "f' = f"
    by (auto simp: insert_feature_merge_dup split: if_splits)
  from row_absorbs_merged [OF Some sf assms(3)] row_absorbs_update [OF _ Some assms(3)] st' ff
  show ?thesis
    by auto
qed

lemma foldl_insert_gff_edges:
  "foldl (\<lambda>rel p. insert_or_ignore (p, fid f, 1) rel) rel (dict_get (attributes f) ''Parent'')
     = foldl (\<lambda>rel r. insert_or_ignore r rel) rel (gff_edges f)"
  by (simp add: gff_edges_def foldl_map)

lemma set_foldl_insert_edges:
  "set (foldl (\<lambda>rel r. insert_or_ignore r rel) rel rs) = set rel \<union> set rs"
  using set_foldl_insert_or_ignore [of "\<lambda>r. r" rel rs] by simp

lemma foldl_insert_present:
  "list_all (\<lambda>r. r \<in> set rel) rs \<Longrightarrow> foldl (\<lambda>rel r. insert_or_ignore r rel) rel rs = rel"
  by (induction rs) (auto simp: insert_or_ignore_def)

lemma gff_record_merge:
  assumes "merge_strategy cfg = Merge" and "gff_record cfg st it = Inr st'"
    and a: "assign_id cfg st (snd it) = Inr (f, st1)"
    and d: "distinct (map fst (attributes f))"
  shows "autoincrements st' = autoincrements st1 \<and>
         absorbed st' f \<and> (\<forall>g. absorbed st g \<longrightarrow> absorbed st' g)"
proof -
  from assms(2) a obtain f' st2 where
    i: "insert_feature cfg st1 (fst it, f) f = Inr (f', st2)" and
    e: "st' = st2\<lparr>relations := foldl (\<lambda>rel p. insert_or_ignore (p, fid f', 1) rel) (relations st2)
                        (dict_get (attributes f') ''Parent'')\<rparr>"
    by (auto simp: gff_record_def split: sum.splits prod.splits)
  from a have t: "features st1 = features st" "relations st1 = relations st"
    using assign_id_tables by blast+
  from insert_feature_merge [OF assms(1) i d] have
    ff: "f' = f" and r2: "relations st2 = relations st1" and
    c2: "autoincrements st2 = autoincrements st1" and
    ab: "row_absorbs (features st2) f" and
    pres: "\<And>g. row_absorbs (features st1) g \<Longrightarrow> row_absorbs (features st2) g"
    by blast+
  have fe: "features st' = features st2"
    and re: "relations st' = foldl (\<lambda>rel r. insert_or_ignore r rel) (relations st) (gff_edges f)"
    using e ff r2 t foldl_insert_gff_edges [of f "relations st"] by simp_all
  have "absorbed st' f"
    using ab fe re by (simp add: absorbed_def set_foldl_insert_edges list_all_iff)
  moreover have "absorbed st g \<longrightarrow> absorbed st' g" for g
    using pres [of g] fe re t
    by (auto simp: absorbed_def set_foldl_insert_edges list_all_iff)
  ultimately show ?thesis
    using c2 e by auto
qed

lemma assign_id_input_distinct:
  assumes "assign_id cfg st f0 = Inr (f, st1)" and "distinct (map fst (attributes f0))"
  shows "distinct (map fst (attributes f))"
proof -
  from assign_id_cases [OF assms(1)] obtain v f1 ctr where
    ih: "id_handler (other_attribute cfg) (id_spec cfg) f0 (autoincrements st) = Inr (v, f1, ctr)"
    and b: "bind_id v = Inr (fid f)"
    and f1: "f = f1\<lparr>fid := fid f\<rparr>"
    by blast
  from id_handler_distinct [OF ih assms(2)] have "distinct (map fst (attributes f1))" .
  then show ?thesis
    by (subst f1) simp
qed

subsection \<open>The first run absorbs every record\<close>

lemma gff_loop_absorbs:
  assumes "merge_strategy cfg = Merge"
  shows "gff_loop cfg lines st = Inr st' \<Longrightarrow> autoincrements st' = autoincrements st \<Longrightarrow>
         list_all (\<lambda>it. distinct (map fst (attributes (snd it)))) lines \<Longrightarrow>
         list_all (\<lambda>it. \<exists>f. resolves cfg (autoincrements st) (snd it) f \<and> absorbed st' f) lines \<and>
         (\<forall>g. absorbed st g \<longrightarrow> absorbed st' g)"
proof (induction lines arbitrary: st)
  case Nil
  then show ?case by simp
next
  case (Cons it its)
  from Cons.prems(1) obtain s where s: "gff_record cfg st it = Inr s" "gff_loop cfg its s = Inr st'"
    by (auto split: sum.splits)
  have cs: "autoincrements s = autoincrements st"
  proof
    fix k
    from gff_record_counters [OF s(1), of k] gff_loop_counters [OF s(2), of k] Cons.prems(2)
    show "autoincrements s k = autoincrements st k"
      by simp
  qed
  from s(1) obtain f st1 where a: "assign_id cfg st (snd it) = Inr (f, st1)"
    by (auto simp: gff_record_def split: sum.splits prod.splits)
  from Cons.prems(3) have d0: "distinct (map fst (attributes (snd it)))"
    by simp
  from assign_id_input_distinct [OF a d0] have d: "distinct (map fst (attributes f))" .
  from gff_record_merge [OF assms s(1) a d] have
    c1: "autoincrements s = autoincrements st1" and ab: "absorbed s f" and
    pres: "\<And>g. absorbed st g \<Longrightarrow> absorbed s g"
    by blast+
  from assign_id_cases [OF a] obtain v f1 ctr where
    ih: "id_handler (other_attribute cfg) (id_spec cfg) (snd it) (autoincrements st) = Inr (v, f1, ctr)"
    and b: "bind_id v = Inr (fid f)"
    and f1: "f = f1\<lparr>fid := fid f\<rparr>" and st1: "st1 = st\<lparr>autoincrements := ctr\<rparr>"
    by blast
  from st1 c1 cs have "ctr = autoincrements st"
    by simp
  with ih b f1 d have res: "resolves cfg (autoincrements st) (snd it) f"
    unfolding resolves_def by blast
  from Cons.prems(2) cs have e: "autoincrements st' = autoincrements s"
    by simp
  from Cons.prems(3) have ds: "list_all (\<lambda>it. distinct (map fst (attributes (snd it)))) its"
    by simp
  from Cons.IH [OF s(2) e ds] have
    rest: "list_all (\<lambda>it. \<exists>f. resolves cfg (autoincrements s) (snd it) f \<and> absorbed st' f) its"
    and pres': "\<And>g. absorbed s g \<Longrightarrow> absorbed st' g"
    by blast+
  from ab pres' have "absorbed st' f" by blast
  with res rest cs pres pres' show ?case
    by auto
qed

subsection \<open>The second run changes nothing but the order of values\<close>

lemma same_row_refl [simp]: "same_row r r"
  by (simp add: same_row_def)

lemma same_row_trans: "same_row a b \<Longrightarrow> same_row b c \<Longrightarrow> same_row a c"
  unfolding same_row_def
  by (metis (no_types, lifting) feature.update_convs(10) feature.surjective same_values_trans
      feature.select_convs(10))

lemma same_row_fid: "same_row a b \<Longrightarrow> fid b = fid a"
  unfolding same_row_def by (metis feature.select_convs(1) feature.surjective feature.update_convs(10))

lemma same_rows_fids: "list_all2 same_row rows rows' \<Longrightarrow> map fid rows' = map fid rows"
  by (induction rows rows' rule: list_all2_induct) (auto dest: same_row_fid)

lemma same_rows_trans:
  "list_all2 same_row a b \<Longrightarrow> list_all2 same_row b c \<Longrightarrow> list_all2 same_row a c"
  using list_all2_trans [of same_row same_row same_row a b c] same_row_trans by blast

lemma get_feature_unique:
  assumes "distinct (map fid rows)" and "get_feature rows i = Some row"
    and "r \<in> set rows" and "fid r = i"
  shows "r = row"
proof -
  from assms(2) have "fid row = i" "row \<in> set rows"
    using get_feature_fid by blast+
  with assms(1,3,4) show ?thesis
    by (metis distinct_map inj_onD)
qed

lemma same_rows_update:
  assumes "distinct (map fid rows)" and "get_feature rows i = Some row"
    and "same_values (attributes row) a"
  shows "list_all2 same_row rows (sql_update_attributes a i rows)"
proof -
  have "same_row r (if fid r = i then r\<lparr>attributes := a\<rparr> else r)" if "r \<in> set rows" for r
  proof (cases "fid r = i")
    case True
    with get_feature_unique [OF assms(1,2) that] have "r = row" by simp
    with True assms(3) show ?thesis
      by (simp add: same_row_def)
  next
    case False
    then show ?thesis by simp
  qed
  then show ?thesis
    unfolding sql_update_attributes_def
    by (simp add: list_all2_map2 list_all2_same)
qed

lemma gff_record_again:
  assumes "merge_strategy cfg = Merge" and "distinct (map fid (features st))"
    and "resolves cfg (autoincrements st) (snd it) f" and "absorbed st f"
  shows "\<exists>st'. gff_record cfg st it = Inr st' \<and> list_all2 same_row (features st) (features st') \<and>
           relations st' = relations st \<and> autoincrements st' = autoincrements st \<and>
           (\<forall>g. absorbed st g \<longrightarrow> absorbed st' g)"
proof -
  from assms(3) have a: "assign_id cfg st (snd it) = Inr (f, st)"
    and d: "distinct (map fst (attributes f))"
    by (auto simp: resolves_def assign_id_def bind_id_def)
  from assms(4) obtain row where
    g: "get_feature (features st) (fid f) = Some row" and sf: "same_fields row f" and
    at: "list_all (\<lambda>kv. \<exists>old. map_of (attributes row) (fst kv) = Some old \<and> set (snd kv) \<subseteq> set old)
          (attributes f)" and
    ed: "list_all (\<lambda>r. r \<in> set (relations st)) (gff_edges f)"
    by (auto simp: absorbed_def row_absorbs_def)
  let ?m = "merge_attributes (attributes row) (attributes f)"
  let ?st' = "st\<lparr>features := sql_update_attributes ?m (fid f) (features st)\<rparr>"
  have i: "insert_feature cfg st (fst it, f) f = Inr (f, ?st')"
    using g sf by (simp add: insert_feature_merge_dup [OF assms(1)])
  have "foldl (\<lambda>rel p. insert_or_ignore (p, fid f, 1) rel) (relations st)
          (dict_get (attributes f) ''Parent'') = relations st"
    using foldl_insert_gff_edges [of f "relations st"] foldl_insert_present [OF ed] by simp
  with a i have r: "gff_record cfg st it = Inr ?st'"
    by (simp add: gff_record_def)
  have "list_all2 same_row (features st) (features ?st')"
    using same_rows_update [OF assms(2) g same_values_merge [OF at]] by simp
  moreover have "\<forall>g. absorbed st g \<longrightarrow> absorbed ?st' g"
    using gff_record_merge [OF assms(1) r a d] by blast
  ultimately show ?thesis
    using r by auto
qed

lemma gff_loop_again:
  assumes "merge_strategy cfg = Merge"
  shows "distinct (map fid (features st)) \<Longrightarrow>
         list_all (\<lambda>it. \<exists>f. resolves cfg (autoincrements st) (snd it) f \<and> absorbed st f) lines \<Longrightarrow>
         \<exists>st'. gff_loop cfg lines st = Inr st' \<and> list_all2 same_row (features st) (features st') \<and>
           relations st' = relations st \<and> autoincrements st' = autoincrements st"
proof (induction lines arbitrary: st)
  case Nil
  then show ?case by (simp add: list_all2_same)
next
  case (Cons it its)
  from Cons.prems(2) obtain f where
    f: "resolves cfg (autoincrements st) (snd it) f" "absorbed st f"
    by auto
  from gff_record_again [OF assms Cons.prems(1) f] obtain s where
    s: "gff_record cfg st it = Inr s" and rows: "list_all2 same_row (features st) (features s)" and
    rel: "relations s = relations st" and ctr: "autoincrements s = autoincrements st" and
    pres: "\<And>g. absorbed st g \<Longrightarrow> absorbed s g"
    by blast
  from same_rows_fids [OF rows] Cons.prems(1) have d: "distinct (map fid (features s))"
    by simp
  have "list_all (\<lambda>it. \<exists>f. resolves cfg (autoincrements s) (snd it) f \<and> absorbed s f) its"
    unfolding list_all_iff
  proof
    fix x assume "x \<in> set its"
    with Cons.prems(2) obtain h where "resolves cfg (autoincrements st) (snd x) h" "absorbed st h"
      by (auto simp: list_all_iff)
    with ctr pres show "\<exists>f. resolves cfg (autoincrements s) (snd x) f \<and> absorbed s f"
      by auto
  qed
  from Cons.IH [OF d this] obtain st' where
    "gff_loop cfg its s = Inr st'" "list_all2 same_row (features s) (features st')"
    "relations st' = relations s" "autoincrements st' = autoincrements s"
    by blast
  with s rows rel ctr show ?case
    by (auto intro: same_rows_trans)
qed

lemma gff_create_distinct:
  "gff_create cfg lines = Inr st \<Longrightarrow> distinct (map fid (features st))"
  unfolding gff_create_def
  by (erule gff_update_distinct) (simp add: init_tables_def)

subsection \<open>The closure and the level-1 edges\<close>

lemma level1_foldl_level2:
  "level1 (foldl (\<lambda>rel (p, c). insert_or_ignore (p, c, 2) rel) rel xs) = level1 rel"
  by (induction xs arbitrary: rel) (auto simp: insert_or_ignore_def level1_def level_def)

lemma gff_update_relations_level1 [simp]:
  "level1 (relations (gff_update_relations st)) = level1 (relations st)"
  by (simp add: gff_update_relations_def Let_def level1_foldl_level2)

lemma gff_update_relations_autoincrements [simp]:
  "autoincrements (gff_update_relations st) = autoincrements st"
  by (simp add: gff_update_relations_def Let_def)

lemma gff_update_relations_absorbed:
  "absorbed st g \<Longrightarrow> absorbed (gff_update_relations st) g"
  by (auto simp: absorbed_def list_all_iff gff_update_relations_set)

lemma gff_second_ingest:
  assumes "merge_strategy cfg = Merge"
    and "list_all (\<lambda>it. distinct (map fst (attributes (snd it)))) lines"
    and "gff_create cfg lines = Inr st1"
    and "autoincrements st1 = autoincrements init_tables"
  shows "\<exists>st2. gff_update cfg lines st1 = Inr st2 \<and>
           list_all2 same_row (features st1) (features st2) \<and>
           level1 (relations st2) = level1 (relations st1) \<and>
           autoincrements st2 = autoincrements st1"
proof -
  from assms(3) obtain s where loop: "gff_loop cfg lines init_tables = Inr s"
    and st1: "st1 = gff_update_relations s"
    by (auto simp: gff_create_def gff_update_def gff_populate_from_lines_def split: sum.splits)
  from assms(4) st1 have c: "autoincrements s = autoincrements init_tables"
    by simp
  from gff_loop_absorbs [OF assms(1) loop c assms(2)]
  have "list_all (\<lambda>it. \<exists>f. resolves cfg (autoincrements init_tables) (snd it) f \<and> absorbed s f) lines"
    by blast
  with assms(4) st1
  have all: "list_all (\<lambda>it. \<exists>f. resolves cfg (autoincrements st1) (snd it) f \<and> absorbed st1 f) lines"
    by (auto simp: list_all_iff dest: gff_update_relations_absorbed)
  have d: "distinct (map fid (features st1))"
    using assms(3) gff_create_distinct by blast
  from gff_loop_again [OF assms(1) d all] obtain t where
    t: "gff_loop cfg lines st1 = Inr t" "list_all2 same_row (features st1) (features t)"
    "relations t = relations st1" "autoincrements t = autoincrements st1"
    by blast
  then have "gff_update cfg lines st1 = Inr (gff_update_relations t)"
    by (simp add: gff_update_def gff_populate_from_lines_def)
  with t show ?thesis
    by simp
qed

subsection \<open>The GTF driver: counters\<close>

lemma gtf_record_counters:
  assumes "gtf_record cfg st it = Inr st'"
  shows "autoincrements st k \<le> autoincrements st' k"
proof -
  from assms obtain f st1 f' st2 where
    a: "assign_id cfg st (snd it) = Inr (f, st1)" and
    i: "insert_feature cfg st1 (fst it, f) f = Inr (f', st2)" and
    e: "autoincrements st' = autoincrements st2"
    by (auto simp: gtf_record_def split: sum.splits prod.splits)
  from assign_id_counters [OF a, of k] insert_feature_counters [OF i, of k] e show ?thesis
    by simp
qed

lemma gtf_loop_counters:
  "gtf_loop cfg its st = Inr st' \<Longrightarrow> autoincrements st k \<le> autoincrements st' k"
proof (induction its arbitrary: st)
  case Nil
  then show ?case by simp
next
  case (Cons it its)
  from Cons.prems obtain s where s: "gtf_record cfg st it = Inr s" "gtf_loop cfg its s = Inr st'"
    by (auto split: sum.splits)
  from gtf_record_counters [OF s(1), of k] Cons.IH [OF s(2)] show ?case
    by simp
qed

lemma insert_derived_unfold:
  assumes "merge_strategy cfg = Merge"
  shows "insert_derived cfg it st d =
           (case assign_id cfg st d of
              Inl e \<Rightarrow> Inl e
            | Inr (f, st1) \<Rightarrow>
                (case insert_feature cfg st1 it f of Inl e \<Rightarrow> Inl e | Inr (f', st2) \<Rightarrow> Inr st2))"
  using assms
  by (auto simp: insert_derived_def insert_feature_def split: sum.splits option.splits prod.splits)

lemma insert_derived_counters:
  assumes "merge_strategy cfg = Merge" and "insert_derived cfg it st d = Inr st'"
  shows "autoincrements st k \<le> autoincrements st' k"
proof -
  from assms obtain f st1 f' where
    a: "assign_id cfg st d = Inr (f, st1)" and
    i: "insert_feature cfg st1 it f = Inr (f', st')"
    by (auto simp: insert_derived_unfold split: sum.splits prod.splits)
  from assign_id_counters [OF a, of k] insert_feature_counters [OF i, of k] show ?thesis
    by simp
qed

lemma insert_all_derived_counters:
  assumes "merge_strategy cfg = Merge"
  shows "insert_all_derived cfg it ds st = Inr st' \<Longrightarrow> autoincrements st k \<le> autoincrements st' k"
proof (induction ds arbitrary: st)
  case Nil
  then show ?case by simp
next
  case (Cons d ds)
  from Cons.prems obtain s where
    s: "insert_derived cfg it st d = Inr s" "insert_all_derived cfg it ds s = Inr st'"
    by (auto split: sum.splits)
  from insert_derived_counters [OF assms s(1), of k] Cons.IH [OF s(2)] show ?case
    by simp
qed

subsection \<open>The GTF driver: one record, one derived record\<close>

lemma sub_rows_append:
  "featuretype f \<noteq> subfeature cfg \<Longrightarrow> sub_rows cfg (rows @ [f]) = sub_rows cfg rows"
  by (simp add: sub_rows_def)

lemma sub_rows_update [simp]:
  "sub_rows cfg (sql_update_attributes a i rows) = sub_rows cfg rows"
  by (induction rows) (auto simp: sub_rows_def sql_update_attributes_def)

lemma insert_feature_merge_shape:
  assumes "merge_strategy cfg = Merge" and "insert_feature cfg st it f = Inr (f', st')"
  shows "features st' = features st @ [f] \<or>
         (\<exists>a. features st' = sql_update_attributes a (fid f) (features st))"
proof (cases "get_feature (features st) (fid f)")
  case None
  with assms show ?thesis
    by (auto simp: insert_feature_merge_fresh)
next
  case (Some row)
  with assms show ?thesis
    by (auto simp: insert_feature_merge_dup split: if_splits)
qed

lemma gtf_record_merge:
  assumes "merge_strategy cfg = Merge" and "gtf_record cfg st it = Inr st'"
    and a: "assign_id cfg st (snd it) = Inr (f, st1)"
    and d: "distinct (map fst (attributes f))"
  shows "autoincrements st' = autoincrements st1 \<and>
         gtf_absorbed cfg st' f \<and> (\<forall>g. gtf_absorbed cfg st g \<longrightarrow> gtf_absorbed cfg st' g)"
proof -
  from assms(2) a obtain f' st2 rs where
    i: "insert_feature cfg st1 (fst it, f) f = Inr (f', st2)" and
    rs: "gtf_relations cfg f' = Inr rs" and
    e: "st' = st2\<lparr>relations := foldl (\<lambda>rel r. insert_or_ignore r rel) (relations st2) rs\<rparr>"
    by (auto simp: gtf_record_def split: sum.splits prod.splits)
  from a have t: "features st1 = features st" "relations st1 = relations st"
    using assign_id_tables by blast+
  from insert_feature_merge [OF assms(1) i d] have
    ff: "f' = f" and r2: "relations st2 = relations st1" and
    c2: "autoincrements st2 = autoincrements st1" and
    ab: "row_absorbs (features st2) f" and
    pres: "\<And>g. row_absorbs (features st1) g \<Longrightarrow> row_absorbs (features st2) g"
    by blast+
  have fe: "features st' = features st2"
    and re: "set (relations st') = set (relations st) \<union> set rs"
    using e r2 t by (simp_all add: set_foldl_insert_edges)
  have "gtf_absorbed cfg st' f"
    using ab fe re rs ff by (auto simp: gtf_absorbed_def list_all_iff)
  moreover have "gtf_absorbed cfg st g \<longrightarrow> gtf_absorbed cfg st' g" for g
    using pres [of g] fe re t
    by (auto simp: gtf_absorbed_def list_all_iff)
  ultimately show ?thesis
    using c2 e by auto
qed

lemma gtf_loop_absorbs:
  assumes "merge_strategy cfg = Merge"
  shows "gtf_loop cfg lines st = Inr st' \<Longrightarrow> autoincrements st' = autoincrements st \<Longrightarrow>
         list_all (\<lambda>it. distinct (map fst (attributes (snd it)))) lines \<Longrightarrow>
         list_all (\<lambda>it. \<exists>f. resolves cfg (autoincrements st) (snd it) f \<and> gtf_absorbed cfg st' f) lines \<and>
         (\<forall>g. gtf_absorbed cfg st g \<longrightarrow> gtf_absorbed cfg st' g)"
proof (induction lines arbitrary: st)
  case Nil
  then show ?case by simp
next
  case (Cons it its)
  from Cons.prems(1) obtain s where s: "gtf_record cfg st it = Inr s" "gtf_loop cfg its s = Inr st'"
    by (auto split: sum.splits)
  have cs: "autoincrements s = autoincrements st"
  proof
    fix k
    from gtf_record_counters [OF s(1), of k] gtf_loop_counters [OF s(2), of k] Cons.prems(2)
    show "autoincrements s k = autoincrements st k"
      by simp
  qed
  from s(1) obtain f st1 where a: "assign_id cfg st (snd it) = Inr (f, st1)"
    by (auto simp: gtf_record_def split: sum.splits prod.splits)
  from Cons.prems(3) have d0: "distinct (map fst (attributes (snd it)))"
    by simp
  from assign_id_input_distinct [OF a d0] have d: "distinct (map fst (attributes f))" .
  from gtf_record_merge [OF assms s(1) a d] have
    c1: "autoincrements s = autoincrements st1" and ab: "gtf_absorbed cfg s f" and
    pres: "\<And>g. gtf_absorbed cfg st g \<Longrightarrow> gtf_absorbed cfg s g"
    by blast+
  from assign_id_cases [OF a] obtain v f1 ctr where
    ih: "id_handler (other_attribute cfg) (id_spec cfg) (snd it) (autoincrements st) = Inr (v, f1, ctr)"
    and b: "bind_id v = Inr (fid f)"
    and f1: "f = f1\<lparr>fid := fid f\<rparr>" and st1: "st1 = st\<lparr>autoincrements := ctr\<rparr>"
    by blast
  from st1 c1 cs have "ctr = autoincrements st"
    by simp
  with ih b f1 d have res: "resolves cfg (autoincrements st) (snd it) f"
    unfolding resolves_def by blast
  from Cons.prems(2) cs have e: "autoincrements st' = autoincrements s"
    by simp
  from Cons.prems(3) have ds: "list_all (\<lambda>it. distinct (map fst (attributes (snd it)))) its"
    by simp
  from Cons.IH [OF s(2) e ds] have
    rest: "list_all (\<lambda>it. \<exists>f. resolves cfg (autoincrements s) (snd it) f \<and> gtf_absorbed cfg st' f) its"
    and pres': "\<And>g. gtf_absorbed cfg s g \<Longrightarrow> gtf_absorbed cfg st' g"
    by blast+
  from ab pres' have "gtf_absorbed cfg st' f" by blast
  with res rest cs pres pres' show ?case
    by auto
qed

subsection \<open>The GTF driver: the second run\<close>

lemma get_feature_same_rows:
  "list_all2 same_row rows rows' \<Longrightarrow> get_feature rows i = Some row \<Longrightarrow>
     \<exists>row'. get_feature rows' i = Some row' \<and> same_row row row'"
proof (induction rows rows' rule: list_all2_induct)
  case Nil
  then show ?case by (simp add: get_feature_def)
next
  case (Cons r rows r' rows')
  from Cons.hyps(1) have "fid r' = fid r"
    by (rule same_row_fid)
  with Cons show ?case
    by (auto simp: get_feature_def split: if_splits)
qed

lemma same_row_fields: "same_row r r' \<Longrightarrow> same_fields r' f = same_fields r f"
  unfolding same_row_def
  by (metis same_fields_attributes)

lemma row_absorbs_same_rows:
  assumes "list_all2 same_row rows rows'" and "row_absorbs rows g"
  shows "row_absorbs rows' g"
proof -
  from assms(2) obtain row where
    g: "get_feature rows (fid g) = Some row" and sf: "same_fields row g" and
    at: "list_all (\<lambda>kv. \<exists>old. map_of (attributes row) (fst kv) = Some old \<and> set (snd kv) \<subseteq> set old)
          (attributes g)"
    by (auto simp: row_absorbs_def)
  from get_feature_same_rows [OF assms(1) g] obtain row' where
    g': "get_feature rows' (fid g) = Some row'" and sr: "same_row row row'"
    by blast
  from sr have sv: "same_values (attributes row) (attributes row')"
    by (simp add: same_row_def)
  have "list_all (\<lambda>kv. \<exists>old. map_of (attributes row') (fst kv) = Some old \<and> set (snd kv) \<subseteq> set old)
          (attributes g)"
    unfolding list_all_iff
  proof
    fix kv assume "kv \<in> set (attributes g)"
    with at obtain old where o: "map_of (attributes row) (fst kv) = Some old" "set (snd kv) \<subseteq> set old"
      by (auto simp: list_all_iff)
    from same_values_map_of [OF sv o(1)] o(2)
    show "\<exists>old. map_of (attributes row') (fst kv) = Some old \<and> set (snd kv) \<subseteq> set old"
      by auto
  qed
  with g' sf same_row_fields [OF sr] show ?thesis
    by (auto simp: row_absorbs_def)
qed

lemma sub_rows_same_rows:
  "list_all2 same_row rows rows' \<Longrightarrow> sub_rows cfg rows' = sub_rows cfg rows"
proof (induction rows rows' rule: list_all2_induct)
  case Nil
  then show ?case by simp
next
  case (Cons r rows r' rows')
  from Cons.hyps(1) have "r'\<lparr>attributes := attributes r\<rparr> = r"
    by (simp add: same_row_def)
  then have "fid r' = fid r \<and> fstart r' = fstart r \<and> fend r' = fend r \<and> strand r' = strand r \<and>
      seqid r' = seqid r \<and> featuretype r' = featuretype r"
    by (metis feature.select_convs(1,2,4,5,6,8) feature.surjective feature.update_convs(10))
  with Cons.IH show ?case
    by (simp add: sub_rows_def)
qed

lemma insert_feature_again:
  assumes "merge_strategy cfg = Merge" and "distinct (map fid (features st))"
    and "row_absorbs (features st) f"
  shows "\<exists>st'. insert_feature cfg st it f = Inr (f, st') \<and>
           list_all2 same_row (features st) (features st') \<and>
           relations st' = relations st \<and> autoincrements st' = autoincrements st"
proof -
  from assms(3) obtain row where
    g: "get_feature (features st) (fid f) = Some row" and sf: "same_fields row f" and
    at: "list_all (\<lambda>kv. \<exists>old. map_of (attributes row) (fst kv) = Some old \<and> set (snd kv) \<subseteq> set old)
          (attributes f)"
    by (auto simp: row_absorbs_def)
  let ?m = "merge_attributes (attributes row) (attributes f)"
  let ?st' = "st\<lparr>features := sql_update_attributes ?m (fid f) (features st)\<rparr>"
  have i: "insert_feature cfg st it f = Inr (f, ?st')"
    using g sf by (simp add: insert_feature_merge_dup [OF assms(1)])
  have "list_all2 same_row (features st) (features ?st')"
    using same_rows_update [OF assms(2) g same_values_merge [OF at]] by simp
  with i show ?thesis
    by auto
qed

lemma gtf_record_again:
  assumes "merge_strategy cfg = Merge" and "distinct (map fid (features st))"
    and "resolves cfg (autoincrements st) (snd it) f" and "gtf_absorbed cfg st f"
  shows "\<exists>st'. gtf_record cfg st it = Inr st' \<and> list_all2 same_row (features st) (features st') \<and>
           relations st' = relations st \<and> autoincrements st' = autoincrements st"
proof -
  from assms(3) have a: "assign_id cfg st (snd it) = Inr (f, st)"
    by (auto simp: resolves_def assign_id_def bind_id_def)
  from assms(4) obtain rs where ra: "row_absorbs (features st) f" and
    rs: "gtf_relations cfg f = Inr rs" and ed: "list_all (\<lambda>r. r \<in> set (relations st)) rs"
    by (auto simp: gtf_absorbed_def)
  from insert_feature_again [OF assms(1,2) ra, of "(fst it, f)"] obtain st' where
    i: "insert_feature cfg st (fst it, f) f = Inr (f, st')" and
    rows: "list_all2 same_row (features st) (features st')" and
    rel: "relations st' = relations st" and ctr: "autoincrements st' = autoincrements st"
    by blast
  from ed rel have "foldl (\<lambda>rel r. insert_or_ignore r rel) (relations st') rs = relations st'"
    by (simp add: foldl_insert_present)
  with a i rs have "gtf_record cfg st it = Inr st'"
    by (simp add: gtf_record_def)
  with rows rel ctr show ?thesis
    by blast
qed

lemma gtf_absorbed_same_rows:
  assumes "list_all2 same_row (features st) (features st')" and "relations st' = relations st"
    and "gtf_absorbed cfg st g"
  shows "gtf_absorbed cfg st' g"
  using assms row_absorbs_same_rows [OF assms(1)]
  by (auto simp: gtf_absorbed_def)

lemma gtf_loop_again:
  assumes "merge_strategy cfg = Merge"
  shows "distinct (map fid (features st)) \<Longrightarrow>
         list_all (\<lambda>it. \<exists>f. resolves cfg (autoincrements st) (snd it) f \<and> gtf_absorbed cfg st f) lines \<Longrightarrow>
         \<exists>st'. gtf_loop cfg lines st = Inr st' \<and> list_all2 same_row (features st) (features st') \<and>
           relations st' = relations st \<and> autoincrements st' = autoincrements st"
proof (induction lines arbitrary: st)
  case Nil
  then show ?case by (simp add: list_all2_same)
next
  case (Cons it its)
  from Cons.prems(2) obtain f where
    f: "resolves cfg (autoincrements st) (snd it) f" "gtf_absorbed cfg st f"
    by auto
  from gtf_record_again [OF assms Cons.prems(1) f] obtain s where
    s: "gtf_record cfg st it = Inr s" and rows: "list_all2 same_row (features st) (features s)" and
    rel: "relations s = relations st" and ctr: "autoincrements s = autoincrements st"
    by blast
  from same_rows_fids [OF rows] Cons.prems(1) have d: "distinct (map fid (features s))"
    by simp
  have "list_all (\<lambda>it. \<exists>f. resolves cfg (autoincrements s) (snd it) f \<and> gtf_absorbed cfg s f) its"
    unfolding list_all_iff
  proof
    fix x assume "x \<in> set its"
    with Cons.prems(2) obtain h where h: "resolves cfg (autoincrements st) (snd x) h"
        "gtf_absorbed cfg st h"
      by (auto simp: list_all_iff)
    from gtf_absorbed_same_rows [OF rows rel h(2)] h(1) ctr
    show "\<exists>f. resolves cfg (autoincrements s) (snd x) f \<and> gtf_absorbed cfg s f"
      by auto
  qed
  from Cons.IH [OF d this] obtain st' where
    "gtf_loop cfg its s = Inr st'" "list_all2 same_row (features s) (features st')"
    "relations st' = relations s" "autoincrements st' = autoincrements s"
    by blast
  with s rows rel ctr show ?case
    by (auto intro: same_rows_trans)
qed

subsection \<open>The GTF driver: derived records\<close>

lemma try_keys_featuretype:
  "try_keys other ks f ctr = Inr (i, f', ctr') \<Longrightarrow> featuretype f' = featuretype f"
proof (induction other ks f ctr rule: try_keys.induct)
  case (1 f ctr)
  then show ?case
    by (auto split: prod.splits)
next
  case (2 g ks f ctr)
  then show ?case
    by (auto split: option.splits if_splits prod.splits)
next
  case (3 k ks f ctr)
  then show ?case
    by (auto simp: Let_def split: if_splits sum.splits)
qed

lemma id_handler_featuretype:
  "id_handler other spec f ctr = Inr (i, f', ctr') \<Longrightarrow> featuretype f' = featuretype f"
  by (auto simp: id_handler_def simp del: try_keys.simps
      split: id_spec.splits option.splits id_val.splits prod.splits
      dest: try_keys_featuretype)

lemma assign_id_featuretype:
  assumes "assign_id cfg st d = Inr (f, st1)"
  shows "featuretype f = featuretype d"
proof -
  from assign_id_cases [OF assms] obtain v f1 ctr where
    ih: "id_handler (other_attribute cfg) (id_spec cfg) d (autoincrements st) = Inr (v, f1, ctr)"
    and b: "bind_id v = Inr (fid f)"
    and f1: "f = f1\<lparr>fid := fid f\<rparr>"
    by blast
  from id_handler_featuretype [OF ih] have "featuretype f1 = featuretype d" .
  then show ?thesis
    by (subst f1) simp
qed

lemma insert_derived_merge:
  assumes "merge_strategy cfg = Merge" and "insert_derived cfg it st d = Inr st'"
    and a: "assign_id cfg st d = Inr (f, st1)"
    and d: "distinct (map fst (attributes f))"
    and ft: "featuretype f \<noteq> subfeature cfg"
  shows "autoincrements st' = autoincrements st1 \<and> relations st' = relations st \<and>
         row_absorbs (features st') f \<and>
         (\<forall>g. row_absorbs (features st) g \<longrightarrow> row_absorbs (features st') g) \<and>
         sub_rows cfg (features st') = sub_rows cfg (features st)"
proof -
  from assms(1,2) a obtain f' where i: "insert_feature cfg st1 it f = Inr (f', st')"
    by (auto simp: insert_derived_unfold split: sum.splits prod.splits)
  from a have t: "features st1 = features st" "relations st1 = relations st"
    using assign_id_tables by blast+
  from insert_feature_merge_shape [OF assms(1) i] ft t
  have "sub_rows cfg (features st') = sub_rows cfg (features st)"
    by (auto simp: sub_rows_append)
  with insert_feature_merge [OF assms(1) i d] t show ?thesis
    by auto
qed

lemma insert_all_derived_absorbs:
  assumes "merge_strategy cfg = Merge"
  shows "insert_all_derived cfg it ds st = Inr st' \<Longrightarrow> autoincrements st' = autoincrements st \<Longrightarrow>
         list_all (\<lambda>d. distinct (map fst (attributes d)) \<and> featuretype d \<noteq> subfeature cfg) ds \<Longrightarrow>
         list_all (\<lambda>d. \<exists>f. resolves cfg (autoincrements st) d f \<and> row_absorbs (features st') f) ds \<and>
         (\<forall>g. row_absorbs (features st) g \<longrightarrow> row_absorbs (features st') g) \<and>
         relations st' = relations st \<and>
         sub_rows cfg (features st') = sub_rows cfg (features st)"
proof (induction ds arbitrary: st)
  case Nil
  then show ?case by simp
next
  case (Cons d ds)
  from Cons.prems(1) obtain s where
    s: "insert_derived cfg it st d = Inr s" "insert_all_derived cfg it ds s = Inr st'"
    by (auto split: sum.splits)
  have cs: "autoincrements s = autoincrements st"
  proof
    fix k
    from insert_derived_counters [OF assms s(1), of k]
      insert_all_derived_counters [OF assms s(2), of k] Cons.prems(2)
    show "autoincrements s k = autoincrements st k"
      by simp
  qed
  from s(1) obtain f st1 where a: "assign_id cfg st d = Inr (f, st1)"
    by (auto simp: insert_derived_def split: sum.splits prod.splits)
  from Cons.prems(3) have d0: "distinct (map fst (attributes d))"
    and t0: "featuretype d \<noteq> subfeature cfg"
    by simp_all
  from assign_id_input_distinct [OF a d0] have dk: "distinct (map fst (attributes f))" .
  from assign_id_featuretype [OF a] t0 have ft: "featuretype f \<noteq> subfeature cfg"
    by simp
  from insert_derived_merge [OF assms s(1) a dk ft] have
    c1: "autoincrements s = autoincrements st1" and rel: "relations s = relations st" and
    ab: "row_absorbs (features s) f" and
    pres: "\<And>g. row_absorbs (features st) g \<Longrightarrow> row_absorbs (features s) g" and
    sub: "sub_rows cfg (features s) = sub_rows cfg (features st)"
    by blast+
  from assign_id_cases [OF a] obtain v f1 ctr where
    ih: "id_handler (other_attribute cfg) (id_spec cfg) d (autoincrements st) = Inr (v, f1, ctr)"
    and b: "bind_id v = Inr (fid f)"
    and f1: "f = f1\<lparr>fid := fid f\<rparr>" and st1: "st1 = st\<lparr>autoincrements := ctr\<rparr>"
    by blast
  from st1 c1 cs have "ctr = autoincrements st"
    by simp
  with ih b f1 dk have res: "resolves cfg (autoincrements st) d f"
    unfolding resolves_def by blast
  from Cons.prems(2) cs have e: "autoincrements st' = autoincrements s"
    by simp
  from Cons.prems(3)
  have ds: "list_all (\<lambda>d. distinct (map fst (attributes d)) \<and> featuretype d \<noteq> subfeature cfg) ds"
    by simp
  from Cons.IH [OF s(2) e ds] have
    rest: "list_all (\<lambda>d. \<exists>f. resolves cfg (autoincrements s) d f \<and> row_absorbs (features st') f) ds"
    and pres': "\<And>g. row_absorbs (features s) g \<Longrightarrow> row_absorbs (features st') g"
    and rel': "relations st' = relations s"
    and sub': "sub_rows cfg (features st') = sub_rows cfg (features s)"
    by blast+
  from ab pres' have "row_absorbs (features st') f" by blast
  with res rest cs pres pres' rel rel' sub sub' show ?case
    by auto
qed

lemma insert_derived_again:
  assumes "merge_strategy cfg = Merge" and "distinct (map fid (features st))"
    and "resolves cfg (autoincrements st) d f" and "row_absorbs (features st) f"
  shows "\<exists>st'. insert_derived cfg it st d = Inr st' \<and>
           list_all2 same_row (features st) (features st') \<and>
           relations st' = relations st \<and> autoincrements st' = autoincrements st"
proof -
  from assms(3) have a: "assign_id cfg st d = Inr (f, st)"
    by (auto simp: resolves_def assign_id_def bind_id_def)
  from insert_feature_again [OF assms(1,2,4), of it] obtain st' where
    i: "insert_feature cfg st it f = Inr (f, st')" and
    rest: "list_all2 same_row (features st) (features st')"
      "relations st' = relations st" "autoincrements st' = autoincrements st"
    by blast
  from a i have "insert_derived cfg it st d = Inr st'"
    by (simp add: insert_derived_unfold [OF assms(1)])
  with rest show ?thesis
    by blast
qed

lemma insert_all_derived_again:
  assumes "merge_strategy cfg = Merge"
  shows "distinct (map fid (features st)) \<Longrightarrow>
         list_all (\<lambda>d. \<exists>f. resolves cfg (autoincrements st) d f \<and> row_absorbs (features st) f) ds \<Longrightarrow>
         \<exists>st'. insert_all_derived cfg it ds st = Inr st' \<and>
           list_all2 same_row (features st) (features st') \<and>
           relations st' = relations st \<and> autoincrements st' = autoincrements st"
proof (induction ds arbitrary: st)
  case Nil
  then show ?case by (simp add: list_all2_same)
next
  case (Cons d ds)
  from Cons.prems(2) obtain f where
    f: "resolves cfg (autoincrements st) d f" "row_absorbs (features st) f"
    by auto
  from insert_derived_again [OF assms Cons.prems(1) f, of it] obtain s where
    s: "insert_derived cfg it st d = Inr s" and rows: "list_all2 same_row (features st) (features s)" and
    rel: "relations s = relations st" and ctr: "autoincrements s = autoincrements st"
    by blast
  from same_rows_fids [OF rows] Cons.prems(1) have dd: "distinct (map fid (features s))"
    by simp
  have "list_all (\<lambda>d. \<exists>f. resolves cfg (autoincrements s) d f \<and> row_absorbs (features s) f) ds"
    unfolding list_all_iff
  proof
    fix x assume "x \<in> set ds"
    with Cons.prems(2) obtain h where h: "resolves cfg (autoincrements st) x h"
        "row_absorbs (features st) h"
      by (auto simp: list_all_iff)
    from row_absorbs_same_rows [OF rows h(2)] h(1) ctr
    show "\<exists>f. resolves cfg (autoincrements s) x f \<and> row_absorbs (features s) f"
      by auto
  qed
  from Cons.IH [OF dd this] obtain st' where
    "insert_all_derived cfg it ds s = Inr st'" "list_all2 same_row (features s) (features st')"
    "relations st' = relations s" "autoincrements st' = autoincrements s"
    by blast
  with s rows rel ctr show ?case
    by (auto intro: same_rows_trans)
qed

subsection \<open>The GTF driver: what the second pass derives\<close>

lemma derived_feature_props:
  "derived_feature t a e = Inr d \<Longrightarrow> featuretype d = t \<and> attributes d = a"
  by (auto simp: derived_feature_def split: prod.splits if_splits)

lemma derive_props:
  "derive cfg st l rows = Inr ds \<Longrightarrow>
     list_all (\<lambda>d. distinct (map fst (attributes d)) \<and>
                 (featuretype d = ''transcript'' \<or> featuretype d = ''gene'')) ds"
proof (induction rows arbitrary: l ds)
  case Nil
  then show ?case by simp
next
  case (Cons row rows)
  obtain t g where row: "row = (t, g)" by (cases row)
  from Cons.prems row obtain tr hd_ds rest where
    tr: "derived_feature ''transcript''
           (AList.update (gene_key cfg) [g] [(transcript_key cfg, [t])]) (extent cfg st t) = Inr tr"
    and hd_ds: "hd_ds = [tr] \<or>
       (\<exists>ge. derived_feature ''gene'' [(gene_key cfg, [g])] (extent cfg st g) = Inr ge \<and> hd_ds = [tr, ge])"
    and rest: "derive cfg st (Some g) rows = Inr rest" and ds: "ds = hd_ds @ rest"
    by (auto split: sum.splits if_splits)
  have "distinct (map fst (AList.update (gene_key cfg) [g] [(transcript_key cfg, [t])]))"
    by (simp add: distinct_update)
  with derived_feature_props [OF tr]
  have 1: "distinct (map fst (attributes tr)) \<and> featuretype tr = ''transcript''"
    by simp
  from hd_ds 1 have "list_all (\<lambda>d. distinct (map fst (attributes d)) \<and>
                 (featuretype d = ''transcript'' \<or> featuretype d = ''gene'')) hd_ds"
    by (auto dest!: derived_feature_props)
  with Cons.IH [OF rest] ds show ?case
    by simp
qed

lemma firstlevel_sub_rows:
  "concat (map (\<lambda>f. if fid f = c \<and> featuretype f = subfeature cfg \<and> b then [x] else []) rows)
     = concat (map (\<lambda>y. if fst y = c \<and> b then [x] else []) (sub_rows cfg rows))"
  by (induction rows) (auto simp: sub_rows_def)

lemma transcripts_and_genes_cong:
  assumes "relations a = relations b"
    and "sub_rows cfg (features a) = sub_rows cfg (features b)"
  shows "transcripts_and_genes cfg a = transcripts_and_genes cfg b"
  unfolding transcripts_and_genes_def firstlevel_sub_rows assms ..

lemma extent_rows_sub_rows:
  "map (\<lambda>f. (fstart f, fend f, strand f, seqid f))
     (concat (map (\<lambda>f. concat (map (\<lambda>r. if fid f = child r \<and> parent r = p \<and>
                                             featuretype f = subfeature cfg then [f] else []) rel))
        rows))
   = concat (map (\<lambda>y. concat (map (\<lambda>r. if fst y = child r \<and> parent r = p then [snd y] else []) rel))
        (sub_rows cfg rows))"
proof (induction rows)
  case Nil
  then show ?case by (simp add: sub_rows_def)
next
  case (Cons f rows)
  have "map (\<lambda>f. (fstart f, fend f, strand f, seqid f))
          (concat (map (\<lambda>r. if fid f = child r \<and> parent r = p \<and> featuretype f = subfeature cfg
                             then [f] else []) rel))
        = (if featuretype f = subfeature cfg
           then concat (map (\<lambda>r. if fid f = child r \<and> parent r = p
                                  then [(fstart f, fend f, strand f, seqid f)] else []) rel)
           else [])"
    by (induction rel) auto
  with Cons show ?case
    by (simp add: sub_rows_def cong: if_cong)
qed

lemma extent_via_columns:
  "extent cfg st p =
     (let cols = map (\<lambda>f. (fstart f, fend f, strand f, seqid f))
                   [f. f \<leftarrow> features st, r \<leftarrow> relations st,
                    fid f = child r \<and> parent r = p \<and> featuretype f = subfeature cfg]
      in (sql_min (map fst cols), sql_max (map (\<lambda>c. fst (snd c)) cols),
          (case cols of [] \<Rightarrow> None | c # _ \<Rightarrow> Some (fst (snd (snd c)))),
          (case cols of [] \<Rightarrow> None | c # _ \<Rightarrow> Some (snd (snd (snd c))))))"
proof -
  define rows where "rows = [f. f \<leftarrow> features st, r \<leftarrow> relations st,
                    fid f = child r \<and> parent r = p \<and> featuretype f = subfeature cfg]"
  show ?thesis
    unfolding extent_def Let_def rows_def [symmetric]
    by (cases rows) (simp_all add: comp_def)
qed

lemma extent_cong:
  assumes "relations a = relations b"
    and "sub_rows cfg (features a) = sub_rows cfg (features b)"
  shows "extent cfg a p = extent cfg b p"
  unfolding extent_via_columns extent_rows_sub_rows assms ..

lemma derive_cong:
  assumes "relations a = relations b"
    and "sub_rows cfg (features a) = sub_rows cfg (features b)"
  shows "derive cfg a l rows = derive cfg b l rows"
proof (induction rows arbitrary: l)
  case Nil
  then show ?case by simp
next
  case (Cons row rows)
  obtain t g where row: "row = (t, g)" by (cases row)
  show ?case
    unfolding row derive.simps extent_cong [OF assms] Cons.IH ..
qed

subsection \<open>The GTF driver: the second ingest\<close>

lemma gtf_create_distinct:
  "gtf_create cfg it lines = Inr st \<Longrightarrow> distinct (map fid (features st))"
  unfolding gtf_create_def
  by (erule gtf_update_distinct) (simp add: init_tables_def)

lemma gtf_second_ingest:
  assumes m: "merge_strategy cfg = Merge"
    and dl: "list_all (\<lambda>it. distinct (map fst (attributes (snd it)))) lines"
    and cr: "gtf_create cfg it lines = Inr st1"
    and c0: "autoincrements st1 = autoincrements init_tables"
    and sub: "subfeature cfg \<noteq> ''transcript''" "subfeature cfg \<noteq> ''gene''"
  shows "\<exists>st2. gtf_update cfg it' lines st1 = Inr st2 \<and>
           list_all2 same_row (features st1) (features st2) \<and>
           relations st2 = relations st1 \<and>
           autoincrements st2 = autoincrements st1"
proof -
  from cr obtain sA ds where loop: "gtf_loop cfg lines init_tables = Inr sA"
    and vb: "\<not> (verbose cfg \<and> lines = [])"
    and der: "derive cfg sA None (transcripts_and_genes cfg sA) = Inr ds"
    and ins: "insert_all_derived cfg it ds sA = Inr st1"
    by (auto simp: gtf_create_def gtf_update_def gtf_populate_from_lines_def
        gtf_update_relations_def split: sum.splits if_splits)
  have cA: "autoincrements sA = autoincrements init_tables"
  proof
    fix k
    from gtf_loop_counters [OF loop, of k] insert_all_derived_counters [OF m ins, of k] c0
    show "autoincrements sA k = autoincrements init_tables k"
      by simp
  qed
  from gtf_loop_absorbs [OF m loop cA dl]
  have linesA: "list_all (\<lambda>it. \<exists>f. resolves cfg (autoincrements init_tables) (snd it) f \<and>
                    gtf_absorbed cfg sA f) lines"
    by blast
  from derive_props [OF der] sub
  have dsp: "list_all (\<lambda>d. distinct (map fst (attributes d)) \<and> featuretype d \<noteq> subfeature cfg) ds"
    by (auto simp: list_all_iff)
  from c0 cA have c1: "autoincrements st1 = autoincrements sA"
    by simp
  from insert_all_derived_absorbs [OF m ins c1 dsp] have
    ds1: "list_all (\<lambda>d. \<exists>f. resolves cfg (autoincrements sA) d f \<and> row_absorbs (features st1) f) ds"
    and pres: "\<And>g. row_absorbs (features sA) g \<Longrightarrow> row_absorbs (features st1) g"
    and rel1: "relations st1 = relations sA"
    and sub1: "sub_rows cfg (features st1) = sub_rows cfg (features sA)"
    by blast+
  have lines1: "list_all (\<lambda>it. \<exists>f. resolves cfg (autoincrements st1) (snd it) f \<and>
                    gtf_absorbed cfg st1 f) lines"
    unfolding list_all_iff
  proof
    fix x assume "x \<in> set lines"
    with linesA obtain h where h: "resolves cfg (autoincrements init_tables) (snd x) h"
        "gtf_absorbed cfg sA h"
      by (auto simp: list_all_iff)
    from h(2) pres rel1 have "gtf_absorbed cfg st1 h"
      by (auto simp: gtf_absorbed_def)
    with h(1) c0 show "\<exists>f. resolves cfg (autoincrements st1) (snd x) f \<and> gtf_absorbed cfg st1 f"
      by auto
  qed
  have d1: "distinct (map fid (features st1))"
    using cr by (rule gtf_create_distinct)
  from gtf_loop_again [OF m d1 lines1] obtain sB where
    loopB: "gtf_loop cfg lines st1 = Inr sB" and
    rowsB: "list_all2 same_row (features st1) (features sB)" and
    relB: "relations sB = relations st1" and ctrB: "autoincrements sB = autoincrements st1"
    by blast
  from loopB vb have popB: "gtf_populate_from_lines cfg lines st1 = Inr sB"
    by (simp add: gtf_populate_from_lines_def)
  have relAB: "relations sB = relations sA"
    using relB rel1 by simp
  have subAB: "sub_rows cfg (features sB) = sub_rows cfg (features sA)"
    using sub_rows_same_rows [OF rowsB] sub1 by simp
  have derB: "derive cfg sB None (transcripts_and_genes cfg sB) = Inr ds"
    using der derive_cong [OF relAB subAB] transcripts_and_genes_cong [OF relAB subAB]
    by simp
  have dB: "distinct (map fid (features sB))"
    using same_rows_fids [OF rowsB] d1 by simp
  have dsB: "list_all (\<lambda>d. \<exists>f. resolves cfg (autoincrements sB) d f \<and> row_absorbs (features sB) f) ds"
    unfolding list_all_iff
  proof
    fix x assume "x \<in> set ds"
    with ds1 obtain h where h: "resolves cfg (autoincrements sA) x h" "row_absorbs (features st1) h"
      by (auto simp: list_all_iff)
    from row_absorbs_same_rows [OF rowsB h(2)] h(1) ctrB c1
    show "\<exists>f. resolves cfg (autoincrements sB) x f \<and> row_absorbs (features sB) f"
      by auto
  qed
  from insert_all_derived_again [OF m dB dsB, of it'] obtain st2 where
    ins2: "insert_all_derived cfg it' ds sB = Inr st2" and
    rows2: "list_all2 same_row (features sB) (features st2)" and
    rel2: "relations st2 = relations sB" and ctr2: "autoincrements st2 = autoincrements sB"
    by blast
  from popB derB ins2 have "gtf_update cfg it' lines st1 = Inr st2"
    by (simp add: gtf_update_def gtf_update_relations_def)
  with same_rows_trans [OF rowsB rows2] rel2 relB ctr2 ctrB show ?thesis
    by auto
qed

text \<open>
  Claim C2, as amended. Let a creation under \<open>merge\<close> succeed without an
  auto-incremented id (the counters are as they were), on records whose attribute keys
  are distinct. Then a second ingest of the same records into the created store
  succeeds. It leaves \<open>features\<close> with the same rows in the same order, each equal to
  the row before in every column but the attributes, which keep their keys and, up to
  order and repetition, the values of every key; the counters are unchanged. In the GFF
  driver the level-1 rows of \<open>relations\<close> are unchanged. In the GTF driver, for a
  sub-feature type other than \<open>transcript\<close> and \<open>gene\<close>, all of \<open>relations\<close> is unchanged.
\<close>

theorem second_ingest_under_merge:
  assumes "merge_strategy cfg = Merge"
    and "list_all (\<lambda>it. distinct (map fst (attributes (snd it)))) lines"
    and "autoincrements st1 = autoincrements init_tables"
  shows "(gff_create cfg lines = Inr st1 \<longrightarrow>
            (\<exists>st2. gff_update cfg lines st1 = Inr st2 \<and>
               list_all2 same_row (features st1) (features st2) \<and>
               level1 (relations st2) = level1 (relations st1) \<and>
               autoincrements st2 = autoincrements st1)) \<and>
         (gtf_create cfg it lines = Inr st1 \<and>
          subfeature cfg \<noteq> ''transcript'' \<and> subfeature cfg \<noteq> ''gene'' \<longrightarrow>
            (\<exists>st2. gtf_update cfg it' lines st1 = Inr st2 \<and>
               list_all2 same_row (features st1) (features st2) \<and>
               relations st2 = relations st1 \<and>
               autoincrements st2 = autoincrements st1))"
  using assms gff_second_ingest [of cfg lines st1] gtf_second_ingest [of cfg lines it st1 it']
  by blast

theorem second_ingest_under_merge_witness:
  "merge_strategy (gff_config Merge) = Merge \<and>
   list_all (\<lambda>it. distinct (map fst (attributes (snd it)))) gff_note \<and>
   (\<exists>st1 st2. gff_create (gff_config Merge) gff_note = Inr st1 \<and>
      autoincrements st1 = autoincrements init_tables \<and>
      gff_update (gff_config Merge) gff_note st1 = Inr st2 \<and>
      list_all2 same_row (features st1) (features st2) \<and>
      level1 (relations st2) = level1 (relations st1) \<and>
      autoincrements st2 = autoincrements st1) \<and>
   merge_strategy gtf_config_ids = Merge \<and>
   list_all (\<lambda>it. distinct (map fst (attributes (snd it)))) gtf_exon_with_id \<and>
   subfeature gtf_config_ids \<noteq> ''transcript'' \<and> subfeature gtf_config_ids \<noteq> ''gene'' \<and>
   (\<exists>st1 st2. gtf_create gtf_config_ids (0, second_x) gtf_exon_with_id = Inr st1 \<and>
      autoincrements st1 = autoincrements init_tables \<and>
      gtf_update gtf_config_ids (0, second_x) gtf_exon_with_id st1 = Inr st2 \<and>
      list_all2 same_row (features st1) (features st2) \<and>
      relations st2 = relations st1 \<and>
      autoincrements st2 = autoincrements st1)"
proof -
  let ?st1 = "\<lparr>features =
        [example_feature ''gene'' 1 5 [(''ID'', [''x'']), (''Note'', [''b'', ''a''])]\<lparr>fid := ''x''\<rparr>,
         example_feature ''mRNA'' 1 5 [(''ID'', [''y'']), (''Parent'', [''x''])]\<lparr>fid := ''y''\<rparr>],
      relations = [(''x'', ''y'', 1)], autoincrements = (\<lambda>k. 0)\<rparr>"
  have h1: "merge_strategy (gff_config Merge) = Merge"
    by (simp add: gff_config_def)
  have h2: "list_all (\<lambda>it. distinct (map fst (attributes (snd it)))) gff_note"
    by (simp add: gff_note_def example_feature_def)
  have h3: "gff_create (gff_config Merge) gff_note = Inr ?st1"
    by (simp add: gff_create_def gff_update_def gff_populate_from_lines_def gff_note_def
        gff_config_def example_feature_def init_tables_def gff_record_def assign_id_def bind_id_def
        id_handler_def is_sentinel_def dict_get_def insert_feature_def sql_insert_def
        insert_or_ignore_def gff_update_relations_def grandchildren_def parent_def child_def)
  have h4: "autoincrements ?st1 = autoincrements init_tables"
    by (simp add: init_tables_def)
  from second_ingest_under_merge [OF h1 h2 h4] h3 obtain st2 where
    "gff_update (gff_config Merge) gff_note ?st1 = Inr st2"
    "list_all2 same_row (features ?st1) (features st2)"
    "level1 (relations st2) = level1 (relations ?st1)"
    "autoincrements st2 = autoincrements ?st1"
    by blast
  with h3 h4 have A: "\<exists>st1 st2. gff_create (gff_config Merge) gff_note = Inr st1 \<and>
      autoincrements st1 = autoincrements init_tables \<and>
      gff_update (gff_config Merge) gff_note st1 = Inr st2 \<and>
      list_all2 same_row (features st1) (features st2) \<and>
      level1 (relations st2) = level1 (relations st1) \<and>
      autoincrements st2 = autoincrements st1"
    by blast
  let ?g1 = "\<lparr>features =
          [example_feature ''exon'' 100 150
             [(''gene_id'', [''G1'']), (''transcript_id'', [''T1'']), (''exon_id'', [''E1''])]
             \<lparr>fid := ''E1''\<rparr>,
           example_feature ''transcript'' 100 150
             [(''transcript_id'', [''T1'']), (''gene_id'', [''G1''])]
             \<lparr>fid := ''T1'', source := ''gffutils_derived''\<rparr>,
           example_feature ''gene'' 100 150 [(''gene_id'', [''G1''])]
             \<lparr>fid := ''G1'', source := ''gffutils_derived''\<rparr>],
        relations = [(''T1'', ''E1'', 1), (''G1'', ''E1'', 2), (''G1'', ''T1'', 1)],
        autoincrements = (\<lambda>k. 0)\<rparr>"
  have k1: "merge_strategy gtf_config_ids = Merge"
    by (simp add: gtf_config_ids_def gtf_config_def)
  have k2: "list_all (\<lambda>it. distinct (map fst (attributes (snd it)))) gtf_exon_with_id"
    by (simp add: gtf_exon_with_id_def example_feature_def)
  have k3: "gtf_create gtf_config_ids (0, second_x) gtf_exon_with_id = Inr ?g1"
    by (simp add: gtf_create_def gtf_update_def gtf_populate_from_lines_def gtf_exon_with_id_def
        gtf_config_ids_def gtf_config_def example_feature_def init_tables_def gtf_record_def
        assign_id_def bind_id_def id_handler_def is_sentinel_def dict_get_def insert_feature_def
        sql_insert_def insert_or_ignore_def gtf_relations_def gtf_update_relations_def
        transcripts_and_genes_def parent_def child_def level_def derive.simps
        derived_feature_def extent_def sql_min_def sql_max_def List.map_filter_def
        insert_derived_def)
  have k4: "autoincrements ?g1 = autoincrements init_tables"
    by (simp add: init_tables_def)
  have k5: "subfeature gtf_config_ids \<noteq> ''transcript''" "subfeature gtf_config_ids \<noteq> ''gene''"
    by (simp_all add: gtf_config_ids_def gtf_config_def)
  from second_ingest_under_merge [OF k1 k2 k4, of "(0, second_x)" "(0, second_x)"] k3 k5
  obtain t2 where
    "gtf_update gtf_config_ids (0, second_x) gtf_exon_with_id ?g1 = Inr t2"
    "list_all2 same_row (features ?g1) (features t2)"
    "relations t2 = relations ?g1"
    "autoincrements t2 = autoincrements ?g1"
    by blast
  with k3 k4 have B: "\<exists>st1 st2. gtf_create gtf_config_ids (0, second_x) gtf_exon_with_id = Inr st1 \<and>
      autoincrements st1 = autoincrements init_tables \<and>
      gtf_update gtf_config_ids (0, second_x) gtf_exon_with_id st1 = Inr st2 \<and>
      list_all2 same_row (features st1) (features st2) \<and>
      relations st2 = relations st1 \<and>
      autoincrements st2 = autoincrements st1"
    by blast
  from h1 h2 A k1 k2 k5 B show ?thesis
    by blast
qed

text \<open>
  Claim C2 as stated asks for identical tables after the second ingest. A line without an
  id gets the next auto-incremented id and becomes a second row; and a stored value list
  \<open>b, a\<close> comes back from the merge with itself as \<open>a, b\<close>.
\<close>

theorem second_ingest_is_not_identical:
  "(\<exists>st1 st2. gff_create (gff_config Merge) gff_no_id = Inr st1 \<and>
      gff_update (gff_config Merge) gff_no_id st1 = Inr st2 \<and>
      map fid (features st1) = [''gene_1''] \<and>
      map fid (features st2) = [''gene_1'', ''gene_2''] \<and>
      features st2 \<noteq> features st1) \<and>
   (\<exists>st1 st2. gff_create (gff_config Merge) gff_note = Inr st1 \<and>
      gff_update (gff_config Merge) gff_note st1 = Inr st2 \<and>
      map attributes (features st1)
        = [[(''ID'', [''x'']), (''Note'', [''b'', ''a''])], [(''ID'', [''y'']), (''Parent'', [''x''])]] \<and>
      map attributes (features st2)
        = [[(''ID'', [''x'']), (''Note'', [''a'', ''b''])], [(''ID'', [''y'']), (''Parent'', [''x''])]] \<and>
      features st2 \<noteq> features st1)"
proof -
  have "map_sum id (\<lambda>s. map fid (features s)) (gff_create (gff_config Merge) gff_no_id)
        = Inr [''gene_1'']"
    by code_simp
  then obtain a1 where a1: "gff_create (gff_config Merge) gff_no_id = Inr a1"
      "map fid (features a1) = [''gene_1'']"
    by (auto dest: map_sum_Inr_D)
  have "(case gff_create (gff_config Merge) gff_no_id of
           Inl e \<Rightarrow> Inl e
         | Inr st \<Rightarrow> map_sum id (\<lambda>s. map fid (features s)) (gff_update (gff_config Merge) gff_no_id st))
        = Inr [''gene_1'', ''gene_2'']"
    by code_simp
  with a1(1) obtain a2 where a2: "gff_update (gff_config Merge) gff_no_id a1 = Inr a2"
      "map fid (features a2) = [''gene_1'', ''gene_2'']"
    by (auto dest: map_sum_Inr_D)
  from a1(2) a2(2) have a3: "features a2 \<noteq> features a1"
    by auto
  have "map_sum id (\<lambda>s. map attributes (features s)) (gff_create (gff_config Merge) gff_note)
        = Inr [[(''ID'', [''x'']), (''Note'', [''b'', ''a''])], [(''ID'', [''y'']), (''Parent'', [''x''])]]"
    by code_simp
  then obtain b1 where b1: "gff_create (gff_config Merge) gff_note = Inr b1"
      "map attributes (features b1)
         = [[(''ID'', [''x'']), (''Note'', [''b'', ''a''])], [(''ID'', [''y'']), (''Parent'', [''x''])]]"
    by (auto dest: map_sum_Inr_D)
  have "(case gff_create (gff_config Merge) gff_note of
           Inl e \<Rightarrow> Inl e
         | Inr st \<Rightarrow> map_sum id (\<lambda>s. map attributes (features s))
                      (gff_update (gff_config Merge) gff_note st))
        = Inr [[(''ID'', [''x'']), (''Note'', [''a'', ''b''])], [(''ID'', [''y'']), (''Parent'', [''x''])]]"
    by code_simp
  with b1(1) obtain b2 where b2: "gff_update (gff_config Merge) gff_note b1 = Inr b2"
      "map attributes (features b2)
         = [[(''ID'', [''x'']), (''Note'', [''a'', ''b''])], [(''ID'', [''y'']), (''Parent'', [''x''])]]"
    by (auto dest: map_sum_Inr_D)
  from b1(2) b2(2) have b3: "features b2 \<noteq> features b1"
    by auto
  have A: "\<exists>st1 st2. gff_create (gff_config Merge) gff_no_id = Inr st1 \<and>
      gff_update (gff_config Merge) gff_no_id st1 = Inr st2 \<and>
      map fid (features st1) = [''gene_1''] \<and>
      map fid (features st2) = [''gene_1'', ''gene_2''] \<and>
      features st2 \<noteq> features st1"
    apply (rule exI [of _ a1])
    apply (rule exI [of _ a2])
    using a1 a2 a3 apply simp
    done
  have B: "\<exists>st1 st2. gff_create (gff_config Merge) gff_note = Inr st1 \<and>
      gff_update (gff_config Merge) gff_note st1 = Inr st2 \<and>
      map attributes (features st1)
        = [[(''ID'', [''x'']), (''Note'', [''b'', ''a''])], [(''ID'', [''y'']), (''Parent'', [''x''])]] \<and>
      map attributes (features st2)
        = [[(''ID'', [''x'']), (''Note'', [''a'', ''b''])], [(''ID'', [''y'']), (''Parent'', [''x''])]] \<and>
      features st2 \<noteq> features st1"
    apply (rule exI [of _ b1])
    apply (rule exI [of _ b2])
    using b1 b2 b3 apply simp
    done
  from A B show ?thesis
    by (rule conjI)
qed

end
